theory Spec2Isabelle
  imports Main "HOL-Library.Multiset" "HOL-Library.Sublist"
begin

section \<open>Exporter: \<open>exportToCSV\<close> (src/index.tsx, lines 81-93)\<close>

text \<open>
  A record handed to the exporter is a JavaScript object. It is modelled by the list of
  its own enumerable properties in the order \<open>Object.keys\<close> and \<open>Object.values\<close>
  enumerate them. A property value is a string, an integer number (one that JavaScript
  prints in plain decimal notation), \<open>null\<close>, \<open>undefined\<close> or a plain nested object.
\<close>

datatype jsval = JString string | JNumber int | JNull | JUndefined | JObject

type_synonym jsobject = "(string \<times> jsval) list"

definition keys :: "jsobject \<Rightarrow> string list" where
  "keys obj = map fst obj"

definition vals :: "jsobject \<Rightarrow> jsval list" where
  "vals obj = map snd obj"

function dec :: "nat \<Rightarrow> string" where
  "dec n = (if n < 10 then [''0123456789'' ! n]
            else dec (n div 10) @ [''0123456789'' ! (n mod 10)])"
  by pat_completeness auto
termination
  by (relation "measure (\<lambda>n. n)") auto

declare dec.simps [simp del]

text \<open>
  \<open>Array.prototype.join\<close> turns each element into a string: \<open>null\<close> and \<open>undefined\<close>
  become the empty string, everything else goes through \<open>ToString\<close>.
\<close>

fun element_string :: "jsval \<Rightarrow> string" where
  "element_string (JString s) = s"
| "element_string (JNumber n) = (if n < 0 then CHR ''-'' # dec (nat (- n)) else dec (nat n))"
| "element_string JNull = []"
| "element_string JUndefined = []"
| "element_string JObject = ''[object Object]''"

fun join :: "string \<Rightarrow> string list \<Rightarrow> string" where
  "join sep [] = []"
| "join sep [x] = x"
| "join sep (x # y # ys) = x @ sep @ join sep (y # ys)"

definition newline :: string where
  "newline = [CHR 0x0A]"

definition csv_prefix :: string where
  "csv_prefix = ''data:text/csv;charset=utf-8,''"

text \<open>
  The function builds the text \<open>csvContent\<close> and hands it, URI-encoded, to a temporary
  download link whose \<open>download\<close> attribute is the file name followed by \<open>.csv\<close>. The
  model returns the text and the attribute; \<open>None\<close> is the early return on an empty
  array, where no link is created.
\<close>

record download =
  csvContent :: string
  download_name :: string

definition exportToCSV :: "jsobject list \<Rightarrow> string \<Rightarrow> download option" where
  "exportToCSV data filename =
     (case data of
        [] \<Rightarrow> None
      | first # _ \<Rightarrow>
          (let headers = join '','' (keys first);
               rows = join newline (map (\<lambda>obj. join '','' (map element_string (vals obj))) data)
           in Some \<lparr> csvContent = csv_prefix @ headers @ newline @ rows,
                     download_name = filename @ ''.csv'' \<rparr>))"

text \<open>Reading the text back: the lines of a text, and the comma-separated cells of a line.\<close>

fun split_on :: "char \<Rightarrow> string \<Rightarrow> string list" where
  "split_on c [] = [[]]"
| "split_on c (x # xs) =
     (if x = c then [] # split_on c xs
      else (case split_on c xs of
              [] \<Rightarrow> [[x]]
            | l # ls \<Rightarrow> (x # l) # ls))"

text \<open>The text of one exported row, as the function builds it for each record.\<close>

definition csv_row :: "jsobject \<Rightarrow> string" where
  "csv_row obj = join '','' (map element_string (vals obj))"

text \<open>The lines of the exported text after the fixed prefix.\<close>

definition csv_lines :: "download \<Rightarrow> string list" where
  "csv_lines d = split_on (CHR 0x0A) (drop (length csv_prefix) (csvContent d))"

definition no_newline :: "string \<Rightarrow> bool" where
  "no_newline s = (CHR 0x0A \<notin> set s)"

section \<open>Configuration and notification queue (src/index.tsx, lines 123-158)\<close>

text \<open>
  The settings object of the first application variant. The field \<open>notifications\<close> of the
  source is called \<open>cfg_notifications\<close> here, because the notification list itself is a
  state variable of the same name.
\<close>

record config =
  theme :: string
  refreshRate :: nat
  aiModel :: string
  cfg_notifications :: bool

definition initial_config :: config where
  "initial_config = \<lparr> theme = ''Midnight Deep'', refreshRate = 30,
                      aiModel = ''Gemini 3 Flash'', cfg_notifications = True \<rparr>"

text \<open>An entry \<open>{id, text}\<close> of the notification list.\<close>

record Notification =
  n_id :: nat
  n_text :: string

section \<open>Data store: \<open>fetchData\<close> (src/index.tsx, lines 135-138, 160-184 and 866-908)\<close>

text \<open>
  Both application variants keep the same four data variables. The payloads are whatever
  \<open>json()\<close> delivers, so their types are parameters: \<open>'g\<close> for the global summary,
  \<open>'c\<close> for one country object and \<open>'h\<close> for the historical series.
\<close>

record ('g, 'c, 'h) data_state =
  globalStats :: "'g option"
  countries :: "'c list"
  historical :: "'h option"
  loading :: bool

text \<open>
  The first variant adds the notification list and the status line. \<open>timeouts\<close> is the
  table of removal timers armed by \<open>setTimeout\<close> and not fired yet: the time at which each
  is due and the notification id its callback has captured.
\<close>

record ('g, 'c, 'h) app_state = "('g, 'c, 'h) data_state" +
  notifications :: "Notification list"
  timeouts :: "(nat \<times> nat) list"
  systemStatus :: string

text \<open>The second variant adds the error message.\<close>

record ('g, 'c, 'h) app2_state = "('g, 'c, 'h) data_state" +
  error :: "string option"

text \<open>
  \<open>addNotification\<close> reads the settings its closure has captured, takes \<open>Date.now()\<close>
  (the argument \<open>now\<close>, in milliseconds) as the id, appends the entry and arms a timer
  that removes every entry with this id 5000 ms later.
\<close>

definition addNotification ::
  "config \<Rightarrow> nat \<Rightarrow> string \<Rightarrow> ('g, 'c, 'h) app_state \<Rightarrow> ('g, 'c, 'h) app_state" where
  "addNotification cfg now txt s =
     (if \<not> cfg_notifications cfg then s
      else s \<lparr> notifications := notifications s @ [\<lparr> n_id = now, n_text = txt \<rparr>],
               timeouts := timeouts s @ [(now + 5000, now)] \<rparr>)"

text \<open>
  The \<open>k\<close>-th pending removal timer fires: its callback filters the list by the captured
  id, and the timer leaves the table. No timer, no effect.
\<close>

definition timeout_fires :: "nat \<Rightarrow> ('g, 'c, 'h) app_state \<Rightarrow> ('g, 'c, 'h) app_state" where
  "timeout_fires k s =
     (if k < length (timeouts s)
      then s \<lparr> notifications := filter (\<lambda>n. n_id n \<noteq> snd (timeouts s ! k)) (notifications s),
               timeouts := take k (timeouts s) @ drop (Suc k) (timeouts s) \<rparr>
      else s)"

text \<open>
  What a \<open>fetch\<close> settles to. A rejected promise or a rejected \<open>json()\<close> throws a value;
  a fulfilled \<open>fetch\<close> gives a response with its \<open>ok\<close> flag and the outcome of \<open>json()\<close>.
\<close>

datatype thrown = Error string | NotAnError

record 'a response =
  ok :: bool
  json :: "thrown + 'a"

type_synonym 'a fetched = "thrown + 'a response"

text \<open>
  First variant. Everything up to the first \<open>await\<close> runs when the function is called
  (\<open>fetchData_begin\<close>); the rest runs in one piece once the three requests and the three
  \<open>json()\<close> calls have settled (\<open>fetchData_settle\<close>), since no state is written between
  the \<open>await\<close>s. \<open>Promise.all\<close> rejects as soon as one request rejects; the bodies are then
  parsed in the order global, countries, historical.
\<close>

definition fetchData_begin :: "('g, 'c, 'h) app_state \<Rightarrow> ('g, 'c, 'h) app_state" where
  "fetchData_begin s = s \<lparr> loading := True, systemStatus := ''Syncing'' \<rparr>"

definition fetchData_catch ::
  "config \<Rightarrow> nat \<Rightarrow> ('g, 'c, 'h) app_state \<Rightarrow> ('g, 'c, 'h) app_state" where
  "fetchData_catch cfg now s =
     addNotification cfg now ''Critical: API Cluster Unresponsive.''
       (s \<lparr> systemStatus := ''Error'' \<rparr>)"

definition fetchData_settle ::
  "config \<Rightarrow> nat \<Rightarrow> 'g fetched \<Rightarrow> ('c list) fetched \<Rightarrow> 'h fetched \<Rightarrow>
     ('g, 'c, 'h) app_state \<Rightarrow> ('g, 'c, 'h) app_state" where
  "fetchData_settle cfg now gRes cRes hRes s =
     (let s' =
        (case (gRes, cRes, hRes) of
           (Inr g, Inr c, Inr h) \<Rightarrow>
             (case json g of
                Inl _ \<Rightarrow> fetchData_catch cfg now s
              | Inr gData \<Rightarrow>
                  (case json c of
                     Inl _ \<Rightarrow> fetchData_catch cfg now s
                   | Inr cData \<Rightarrow>
                       (case json h of
                          Inl _ \<Rightarrow> fetchData_catch cfg now s
                        | Inr hData \<Rightarrow>
                            addNotification cfg now ''Quantum Data Link Established.''
                              (s \<lparr> globalStats := Some gData, countries := cData,
                                    historical := Some hData,
                                    systemStatus := ''Active'' \<rparr>))))
         | _ \<Rightarrow> fetchData_catch cfg now s)
      in s' \<lparr> loading := False \<rparr>)"

definition fetchData ::
  "config \<Rightarrow> nat \<Rightarrow> 'g fetched \<Rightarrow> ('c list) fetched \<Rightarrow> 'h fetched \<Rightarrow>
     ('g, 'c, 'h) app_state \<Rightarrow> ('g, 'c, 'h) app_state" where
  "fetchData cfg now gRes cRes hRes s = fetchData_settle cfg now gRes cRes hRes (fetchData_begin s)"

text \<open>
  \<open>Promise.all\<close> is fulfilled with the three responses when all three requests are
  fulfilled. Otherwise it is rejected with the reason of the request that is rejected
  first in time, which the outcomes alone do not tell: \<open>first\<close> names that request by
  its position in the array. Should \<open>first\<close> name no rejected request, the reason is
  that of the rejected request that stands first in the array.
\<close>

definition rejected :: "'a fetched \<Rightarrow> thrown option" where
  "rejected r = (case r of Inl e \<Rightarrow> Some e | Inr _ \<Rightarrow> None)"

definition reason :: "nat \<Rightarrow> thrown option list \<Rightarrow> thrown" where
  "reason first rs =
     (case (if first < length rs then rs ! first else None) of
        Some e \<Rightarrow> e
      | None \<Rightarrow> (case List.map_filter (\<lambda>r. r) rs of e # _ \<Rightarrow> e | [] \<Rightarrow> NotAnError))"

definition Promise_all ::
  "nat \<Rightarrow> 'g fetched \<Rightarrow> ('c list) fetched \<Rightarrow> 'h fetched \<Rightarrow>
     thrown + ('g response \<times> ('c list) response \<times> 'h response)" where
  "Promise_all first gRes cRes hRes =
     (case (gRes, cRes, hRes) of
        (Inr g, Inr c, Inr h) \<Rightarrow> Inr (g, c, h)
      | _ \<Rightarrow> Inl (reason first [rejected gRes, rejected cRes, rejected hRes]))"

text \<open>
  Second variant: the same protocol with the \<open>ok\<close> check between the requests and the
  parsing, and an error message instead of notifications.
\<close>

definition fetchData2_begin :: "('g, 'c, 'h) app2_state \<Rightarrow> ('g, 'c, 'h) app2_state" where
  "fetchData2_begin s = s \<lparr> loading := True, error := None \<rparr>"

definition fetchData2_catch :: "thrown \<Rightarrow> ('g, 'c, 'h) app2_state \<Rightarrow> ('g, 'c, 'h) app2_state" where
  "fetchData2_catch err s =
     s \<lparr> error := Some (case err of Error message \<Rightarrow> message
                                   | NotAnError \<Rightarrow> ''An error occurred'') \<rparr>"

definition fetchData2_settle ::
  "nat \<Rightarrow> 'g fetched \<Rightarrow> ('c list) fetched \<Rightarrow> 'h fetched \<Rightarrow>
     ('g, 'c, 'h) app2_state \<Rightarrow> ('g, 'c, 'h) app2_state" where
  "fetchData2_settle first globalRes countriesRes historicalRes s =
     (let s' =
        (case Promise_all first globalRes countriesRes historicalRes of
           Inl e \<Rightarrow> fetchData2_catch e s
         | Inr (g, c, h) \<Rightarrow>
             if \<not> ok g \<or> \<not> ok c \<or> \<not> ok h
             then fetchData2_catch (Error ''API failed to respond'') s
             else
               (case json g of
                  Inl e \<Rightarrow> fetchData2_catch e s
                | Inr gData \<Rightarrow>
                    (case json c of
                       Inl e \<Rightarrow> fetchData2_catch e s
                     | Inr cData \<Rightarrow>
                         (case json h of
                            Inl e \<Rightarrow> fetchData2_catch e s
                          | Inr hData \<Rightarrow>
                              s \<lparr> globalStats := Some gData, countries := cData,
                                  historical := Some hData \<rparr>))))
      in s' \<lparr> loading := False \<rparr>)"

definition fetchData2 ::
  "nat \<Rightarrow> 'g fetched \<Rightarrow> ('c list) fetched \<Rightarrow> 'h fetched \<Rightarrow>
     ('g, 'c, 'h) app2_state \<Rightarrow> ('g, 'c, 'h) app2_state" where
  "fetchData2 first globalRes countriesRes historicalRes s =
     fetchData2_settle first globalRes countriesRes historicalRes (fetchData2_begin s)"

text \<open>
  The store as seen over time. A call of \<open>fetchData\<close> is not guarded, so calls overlap
  freely: any number may have begun before one settles. An event is the beginning of a
  call, the settling of a call with the outcomes of its own three requests, a direct push
  of a notification, or a removal timer firing.
\<close>

datatype ('g, 'c, 'h) store_event =
    Begin
  | Settle config nat "'g fetched" "('c list) fetched" "'h fetched"
  | Push config nat string
  | Expire nat

fun store_step :: "('g, 'c, 'h) app_state \<Rightarrow> ('g, 'c, 'h) store_event \<Rightarrow> ('g, 'c, 'h) app_state" where
  "store_step s Begin = fetchData_begin s"
| "store_step s (Settle cfg now gRes cRes hRes) = fetchData_settle cfg now gRes cRes hRes s"
| "store_step s (Push cfg now txt) = addNotification cfg now txt s"
| "store_step s (Expire k) = timeout_fires k s"

definition store_run ::
  "('g, 'c, 'h) app_state \<Rightarrow> ('g, 'c, 'h) store_event list \<Rightarrow> ('g, 'c, 'h) app_state" where
  "store_run s evs = foldl store_step s evs"

datatype ('g, 'c, 'h) store2_event =
    Begin2
  | Settle2 nat "'g fetched" "('c list) fetched" "'h fetched"

fun store2_step ::
  "('g, 'c, 'h) app2_state \<Rightarrow> ('g, 'c, 'h) store2_event \<Rightarrow> ('g, 'c, 'h) app2_state" where
  "store2_step s Begin2 = fetchData2_begin s"
| "store2_step s (Settle2 first gRes cRes hRes) = fetchData2_settle first gRes cRes hRes s"

definition store2_run ::
  "('g, 'c, 'h) app2_state \<Rightarrow> ('g, 'c, 'h) store2_event list \<Rightarrow> ('g, 'c, 'h) app2_state" where
  "store2_run s evs = foldl store2_step s evs"

text \<open>The three data variables read together, and the initial states of the two variants.\<close>

definition snapshot :: "('g, 'c, 'h, 'z) data_state_scheme \<Rightarrow> 'g option \<times> 'c list \<times> 'h option" where
  "snapshot s = (globalStats s, countries s, historical s)"

definition initial_app :: "('g, 'c, 'h) app_state" where
  "initial_app = \<lparr> globalStats = None, countries = [], historical = None, loading = True,
                   notifications = [], timeouts = [], systemStatus = ''Stable'' \<rparr>"

definition initial_app2 :: "('g, 'c, 'h) app2_state" where
  "initial_app2 = \<lparr> globalStats = None, countries = [], historical = None, loading = True,
                    error = None \<rparr>"

text \<open>
  A refresh succeeds when each of its three requests is fulfilled with a response that
  is \<open>ok\<close> and whose body parses; \<open>delivered\<close> is then the triple of the three bodies,
  and \<open>None\<close> on any failure.
\<close>

definition delivered ::
  "'g fetched \<Rightarrow> ('c list) fetched \<Rightarrow> 'h fetched \<Rightarrow> ('g option \<times> 'c list \<times> 'h option) option" where
  "delivered gRes cRes hRes =
     (case (gRes, cRes, hRes) of
        (Inr g, Inr c, Inr h) \<Rightarrow>
          (if ok g \<and> ok c \<and> ok h
           then (case (json g, json c, json h) of
                   (Inr gData, Inr cData, Inr hData) \<Rightarrow> Some (Some gData, cData, Some hData)
                 | _ \<Rightarrow> None)
           else None)
      | _ \<Rightarrow> None)"

text \<open>
  What the first variant goes by instead: the three bodies whenever the requests are
  fulfilled and the bodies parse, whatever the responses' \<open>ok\<close> flags say.
\<close>

definition bodies ::
  "'g fetched \<Rightarrow> ('c list) fetched \<Rightarrow> 'h fetched \<Rightarrow> ('g option \<times> 'c list \<times> 'h option) option" where
  "bodies gRes cRes hRes =
     (case (gRes, cRes, hRes) of
        (Inr g, Inr c, Inr h) \<Rightarrow>
          (case (json g, json c, json h) of
             (Inr gData, Inr cData, Inr hData) \<Rightarrow> Some (Some gData, cData, Some hData)
           | _ \<Rightarrow> None)
      | _ \<Rightarrow> None)"

text \<open>
  The triples written by the calls that settle in a run of events: bodies in the first
  variant, deliveries in the second.
\<close>

fun bodies_of :: "('g, 'c, 'h) store_event list \<Rightarrow> ('g option \<times> 'c list \<times> 'h option) list" where
  "bodies_of [] = []"
| "bodies_of (Settle cfg now gRes cRes hRes # evs) =
     (case bodies gRes cRes hRes of
        None \<Rightarrow> bodies_of evs
      | Some t \<Rightarrow> t # bodies_of evs)"
| "bodies_of (_ # evs) = bodies_of evs"

fun deliveries :: "('g, 'c, 'h) store2_event list \<Rightarrow> ('g option \<times> 'c list \<times> 'h option) list" where
  "deliveries [] = []"
| "deliveries (Settle2 first gRes cRes hRes # evs) =
     (case delivered gRes cRes hRes of
        None \<Rightarrow> deliveries evs
      | Some t \<Rightarrow> t # deliveries evs)"
| "deliveries (_ # evs) = deliveries evs"

text \<open>
  A burst of pushes, one per given clock reading and text, and the link between the
  list and the timer table: every entry has a removal timer pending for its id.
\<close>

definition pushes :: "config \<Rightarrow> (nat \<times> string) list \<Rightarrow> ('g, 'c, 'h) store_event list" where
  "pushes cfg ps = map (\<lambda>(now, t). Push cfg now t) ps"

definition timed :: "('g, 'c, 'h) app_state \<Rightarrow> bool" where
  "timed s = (\<forall>n \<in> set (notifications s). n_id n \<in> snd ` set (timeouts s))"

text \<open>
  The first variant over time, with its settings. \<open>useCallback\<close> renews
  \<open>addNotification\<close> whenever \<open>config.notifications\<close> changes and \<open>fetchData\<close> whenever
  \<open>addNotification\<close> does, so a handler of the current render and a call of \<open>fetchData\<close>
  that begins now read the current settings. A call of \<open>fetchData\<close> that has begun keeps
  the \<open>addNotification\<close> it was created with until it settles. \<open>inflight\<close> lists the
  calls begun and not yet settled, each under its number, with the settings its
  \<open>addNotification\<close> closes over.
\<close>

record ('g, 'c, 'h) live_state =
  store :: "('g, 'c, 'h) app_state"
  config :: config
  inflight :: "(nat \<times> config) list"
  next_call :: nat

definition initial_live :: "('g, 'c, 'h) live_state" where
  "initial_live = \<lparr> store = initial_app, config = initial_config, inflight = [], next_call = 0 \<rparr>"

text \<open>
  What can happen: \<open>fetchData\<close> is called (at mount or by the interval timer); the
  notifications switch of the settings view is clicked, which flips the setting and,
  \<open>fetchData\<close> being renewed, makes the refresh effect run again and call it; a call
  settles with the outcomes of its requests; a handler pushes a notification; a removal
  timer fires.
\<close>

datatype ('g, 'c, 'h) live_event =
    CallFetchData
  | ToggleNotifications
  | SettleCall nat nat "'g fetched" "('c list) fetched" "'h fetched"
  | Notify nat string
  | TimeoutFires nat

definition live_call :: "('g, 'c, 'h) live_state \<Rightarrow> ('g, 'c, 'h) live_state" where
  "live_call s =
     s \<lparr> store := fetchData_begin (store s),
         inflight := inflight s @ [(next_call s, config s)],
         next_call := Suc (next_call s) \<rparr>"

fun live_step :: "('g, 'c, 'h) live_state \<Rightarrow> ('g, 'c, 'h) live_event \<Rightarrow> ('g, 'c, 'h) live_state" where
  "live_step s CallFetchData = live_call s"
| "live_step s ToggleNotifications =
     live_call (s \<lparr> config := (config s) \<lparr> cfg_notifications := \<not> cfg_notifications (config s) \<rparr> \<rparr>)"
| "live_step s (SettleCall call now gRes cRes hRes) =
     (case find (\<lambda>p. fst p = call) (inflight s) of
        None \<Rightarrow> s
      | Some (_, cfg) \<Rightarrow>
          s \<lparr> store := fetchData_settle cfg now gRes cRes hRes (store s),
              inflight := filter (\<lambda>p. fst p \<noteq> call) (inflight s) \<rparr>)"
| "live_step s (Notify now t) = s \<lparr> store := addNotification (config s) now t (store s) \<rparr>"
| "live_step s (TimeoutFires k) = s \<lparr> store := timeout_fires k (store s) \<rparr>"

definition live_run :: "('g, 'c, 'h) live_state \<Rightarrow> ('g, 'c, 'h) live_event list \<Rightarrow> ('g, 'c, 'h) live_state" where
  "live_run s evs = foldl live_step s evs"

text \<open>Whether an event settles the call of a given number, and whether it begins a call.\<close>

fun settles :: "nat \<Rightarrow> ('g, 'c, 'h) live_event \<Rightarrow> bool" where
  "settles call (SettleCall call' _ _ _ _) = (call' = call)"
| "settles call _ = False"

fun begins :: "('g, 'c, 'h) live_event \<Rightarrow> bool" where
  "begins CallFetchData = True"
| "begins ToggleNotifications = True"
| "begins _ = False"

text \<open>Calls in flight carry numbers already given out.\<close>

definition numbered :: "('g, 'c, 'h) live_state \<Rightarrow> bool" where
  "numbered s = (\<forall>p \<in> set (inflight s). fst p < next_call s)"

section \<open>Scheduler: the refresh effect (src/index.tsx, lines 186-192)\<close>

text \<open>
  The effect calls \<open>fetchData\<close>, arms an interval timer with \<open>setInterval\<close> and returns a
  cleanup that clears this timer. React runs the cleanup of the previous run before it
  runs the effect again (when \<open>fetchData\<close> or \<open>config.refreshRate\<close> has changed), and
  once more at unmount.

  The state is the browser's table of armed interval timers (handle, delay in
  milliseconds, and the refresh rate the callback has captured), the next free handle,
  the handle the pending cleanup will clear, and a log of the \<open>fetchData\<close> calls made:
  directly by the effect, or by a timer of a given delay.
\<close>

datatype trigger = Direct | Timer nat

record scheduler =
  intervals :: "(nat \<times> nat \<times> nat) list"
  next_handle :: nat
  cleanup :: "nat option"
  fetchData_calls :: "trigger list"

definition initial_scheduler :: scheduler where
  "initial_scheduler = \<lparr> intervals = [], next_handle = 0, cleanup = None, fetchData_calls = [] \<rparr>"

definition effect_body :: "nat \<Rightarrow> scheduler \<Rightarrow> scheduler" where
  "effect_body rate s =
     (let interval = next_handle s
      in s \<lparr> fetchData_calls := fetchData_calls s @ [Direct],
             intervals := intervals s @ [(interval, rate * 1000, rate)],
             next_handle := Suc interval,
             cleanup := Some interval \<rparr>)"

definition effect_cleanup :: "scheduler \<Rightarrow> scheduler" where
  "effect_cleanup s =
     (case cleanup s of
        None \<Rightarrow> s
      | Some interval \<Rightarrow>
          s \<lparr> intervals := filter (\<lambda>t. fst t \<noteq> interval) (intervals s), cleanup := None \<rparr>)"

text \<open>Arming the scheduler with a rate: the first run of the effect, or a later one.\<close>

definition start :: "nat \<Rightarrow> scheduler \<Rightarrow> scheduler" where
  "start rate s = effect_body rate (effect_cleanup s)"

definition stop :: "scheduler \<Rightarrow> scheduler" where
  "stop s = effect_cleanup s"

text \<open>
  The browser fires the timer with a given handle. A handle that is not in the table
  never fires. The callback calls \<open>fetchData\<close> only if the rate it captured is positive.
\<close>

definition interval_fires :: "nat \<Rightarrow> scheduler \<Rightarrow> scheduler" where
  "interval_fires handle s =
     (case find (\<lambda>t. fst t = handle) (intervals s) of
        None \<Rightarrow> s
      | Some (_, delay, rate) \<Rightarrow>
          if rate > 0 then s \<lparr> fetchData_calls := fetchData_calls s @ [Timer delay] \<rparr> else s)"

datatype scheduler_event = Start nat | Stop | Fires nat

fun scheduler_step :: "scheduler \<Rightarrow> scheduler_event \<Rightarrow> scheduler" where
  "scheduler_step s (Start rate) = start rate s"
| "scheduler_step s Stop = stop s"
| "scheduler_step s (Fires handle) = interval_fires handle s"

definition scheduler_run :: "scheduler \<Rightarrow> scheduler_event list \<Rightarrow> scheduler" where
  "scheduler_run s evs = foldl scheduler_step s evs"

fun is_Fires :: "scheduler_event \<Rightarrow> bool" where
  "is_Fires (Fires _) = True"
| "is_Fires _ = False"

text \<open>
  What holds of the timer table between events: it holds exactly the timer the pending
  cleanup will clear, and nothing when no cleanup is pending.
\<close>

definition sched_inv :: "scheduler \<Rightarrow> bool" where
  "sched_inv s =
     (case cleanup s of
        None \<Rightarrow> intervals s = []
      | Some handle \<Rightarrow> map fst (intervals s) = [handle])"

section \<open>Chat session: \<open>sendMessage\<close> (src/index.tsx, lines 66-71, 142-146, 215-270)\<close>

datatype role = User | Model

text \<open>
  A chat message. The field \<open>text\<close> of the source is called \<open>msg_text\<close>; the timestamp is
  the clock reading in milliseconds; \<open>isStreaming\<close> is optional in the source, so absent
  is \<open>None\<close>.
\<close>

record ChatMessage =
  role :: role
  msg_text :: string
  timestamp :: nat
  isStreaming :: "bool option"

text \<open>
  The local state of the one call of \<open>sendMessage\<close> that may be in flight: it waits for
  \<open>initChat\<close>, or for \<open>sendMessageStream\<close> (holding \<open>userMsg\<close>), or it consumes the
  stream (holding \<open>fullText\<close>).
\<close>

datatype call = NoCall | AwaitInit ChatMessage | AwaitStream ChatMessage | Streaming string

text \<open>
  The chat variables of the component. \<open>chatSessionRef\<close> says whether
  \<open>chatSessionRef.current\<close> holds a session.
\<close>

record chat_state =
  chatMessages :: "ChatMessage list"
  chatInput :: string
  isAiTyping :: bool
  chatSessionRef :: bool
  pending :: call

definition initial_chat :: chat_state where
  "initial_chat = \<lparr> chatMessages = [], chatInput = [], isAiTyping = False,
                    chatSessionRef = False, pending = NoCall \<rparr>"

text \<open>
  \<open>String.prototype.trim\<close> on strings of code units below 256: the white space and line
  terminator characters in that range are TAB, LF, VT, FF, CR, SP and NBSP.
\<close>

definition white_space :: "char \<Rightarrow> bool" where
  "white_space c = (of_char c \<in> {9, 10, 11, 12, 13, 32, 160 :: nat})"

definition trim :: "string \<Rightarrow> string" where
  "trim s = rev (dropWhile white_space (rev (dropWhile white_space s)))"

definition fallback_text :: string where
  "fallback_text = ''Neural link failed. Attempting reconnection...''"

text \<open>The part of \<open>sendMessage\<close> that runs at the call, up to the first \<open>await\<close>.\<close>

definition sendMessage_call :: "nat \<Rightarrow> chat_state \<Rightarrow> chat_state" where
  "sendMessage_call now s =
     (if trim (chatInput s) = [] \<or> isAiTyping s then s
      else
        (let userMsg = \<lparr> role = User, msg_text = chatInput s, timestamp = now,
                          isStreaming = None \<rparr>
         in s \<lparr> chatMessages := chatMessages s @ [userMsg],
                chatInput := [],
                isAiTyping := True,
                pending := (if chatSessionRef s then AwaitStream userMsg
                            else AwaitInit userMsg) \<rparr>))"

definition sendMessage_finally :: "chat_state \<Rightarrow> chat_state" where
  "sendMessage_finally s = s \<lparr> isAiTyping := False, pending := NoCall \<rparr>"

definition sendMessage_catch :: "nat \<Rightarrow> chat_state \<Rightarrow> chat_state" where
  "sendMessage_catch now s =
     sendMessage_finally
       (s \<lparr> chatMessages := chatMessages s @
               [\<lparr> role = Model, msg_text = fallback_text, timestamp = now,
                  isStreaming = None \<rparr>] \<rparr>)"

definition placeholder :: "nat \<Rightarrow> ChatMessage" where
  "placeholder now = \<lparr> role = Model, msg_text = [], timestamp = now, isStreaming = Some True \<rparr>"

text \<open>
  The two state updaters of the streaming loop. Each reads the last element of the
  list; on an empty list that element is \<open>undefined\<close> and reading its \<open>role\<close> throws a
  \<open>TypeError\<close> inside React, which is the result \<open>None\<close>.
\<close>

definition set_last_text :: "string \<Rightarrow> ChatMessage list \<Rightarrow> ChatMessage list option" where
  "set_last_text fullText prev =
     (if prev = [] then None
      else Some (butlast prev @
                 [if role (last prev) = Model then (last prev) \<lparr> msg_text := fullText \<rparr>
                  else last prev]))"

definition end_streaming :: "ChatMessage list \<Rightarrow> ChatMessage list option" where
  "end_streaming prev =
     (if prev = [] then None
      else Some (butlast prev @
                 [if role (last prev) = Model then (last prev) \<lparr> isStreaming := Some False \<rparr>
                  else last prev]))"

text \<open>The text of a chunk: \<open>chunk.text || ''\<close>, where \<open>chunk.text\<close> may be undefined.\<close>

definition chunk_text :: "string option \<Rightarrow> string" where
  "chunk_text c = (case c of None \<Rightarrow> [] | Some t \<Rightarrow> t)"

text \<open>
  What can happen to the chat: the user edits the input field; \<open>sendMessage\<close> is called
  (Enter key or button) at some time; \<open>initChat\<close> returns or throws; the promise of
  \<open>sendMessageStream\<close> is fulfilled or rejected; the stream yields a chunk, ends, or
  throws. The times are the readings of \<open>new Date()\<close>. The transport's events reach the
  call only at the \<open>await\<close> it is suspended on; elsewhere they do nothing.
\<close>

datatype chat_event =
    Input string
  | Send nat
  | InitReturns
  | InitThrows nat
  | StreamOpens nat
  | StreamRejects nat
  | Chunk "string option"
  | StreamEnds
  | StreamThrows nat

fun chat_step :: "chat_state \<Rightarrow> chat_event \<Rightarrow> chat_state option" where
  "chat_step s (Input v) = Some (s \<lparr> chatInput := v \<rparr>)"
| "chat_step s (Send now) = Some (sendMessage_call now s)"
| "chat_step s InitReturns =
     (case pending s of
        AwaitInit userMsg \<Rightarrow> Some (s \<lparr> chatSessionRef := True, pending := AwaitStream userMsg \<rparr>)
      | _ \<Rightarrow> Some s)"
| "chat_step s (InitThrows now) =
     (case pending s of
        AwaitInit userMsg \<Rightarrow> Some (sendMessage_catch now s)
      | _ \<Rightarrow> Some s)"
| "chat_step s (StreamOpens now) =
     (case pending s of
        AwaitStream userMsg \<Rightarrow>
          Some (s \<lparr> chatMessages := chatMessages s @ [placeholder now], pending := Streaming [] \<rparr>)
      | _ \<Rightarrow> Some s)"
| "chat_step s (StreamRejects now) =
     (case pending s of
        AwaitStream userMsg \<Rightarrow> Some (sendMessage_catch now s)
      | _ \<Rightarrow> Some s)"
| "chat_step s (Chunk c) =
     (case pending s of
        Streaming fullText \<Rightarrow>
          (let fullText' = fullText @ chunk_text c
           in case set_last_text fullText' (chatMessages s) of
                None \<Rightarrow> None
              | Some updated \<Rightarrow> Some (s \<lparr> chatMessages := updated, pending := Streaming fullText' \<rparr>))
      | _ \<Rightarrow> Some s)"
| "chat_step s StreamEnds =
     (case pending s of
        Streaming fullText \<Rightarrow>
          (case end_streaming (chatMessages s) of
             None \<Rightarrow> None
           | Some updated \<Rightarrow> Some (sendMessage_finally (s \<lparr> chatMessages := updated \<rparr>)))
      | _ \<Rightarrow> Some s)"
| "chat_step s (StreamThrows now) =
     (case pending s of
        Streaming fullText \<Rightarrow> Some (sendMessage_catch now s)
      | _ \<Rightarrow> Some s)"

fun chat_run :: "chat_state \<Rightarrow> chat_event list \<Rightarrow> chat_state option" where
  "chat_run s [] = Some s"
| "chat_run s (ev # evs) =
     (case chat_step s ev of
        None \<Rightarrow> None
      | Some s' \<Rightarrow> chat_run s' evs)"

text \<open>
  One exchange up to the arrival of the given chunks: the call, the session set up if
  there is none yet, the stream opened, the chunks in their order.
\<close>

definition exchange :: "bool \<Rightarrow> nat \<Rightarrow> nat \<Rightarrow> string option list \<Rightarrow> chat_event list" where
  "exchange has_session t_send t_open chunks =
     Send t_send # (if has_session then [] else [InitReturns]) @
     StreamOpens t_open # map Chunk chunks"

text \<open>The invariant of the conversation log as the specification words it.\<close>

definition streaming :: "ChatMessage \<Rightarrow> bool" where
  "streaming m = (isStreaming m = Some True)"

definition one_streaming_last :: "ChatMessage list \<Rightarrow> bool" where
  "one_streaming_last msgs =
     (length (filter streaming msgs) \<le> 1 \<and>
      (if filter streaming msgs = [] then True else streaming (last msgs)))"

text \<open>
  What holds of the chat variables between events: \<open>isAiTyping\<close> is set exactly while
  a call is in flight, and the last message is a streaming model message carrying
  \<open>fullText\<close> exactly while the call consumes its stream.
\<close>

definition chat_inv :: "chat_state \<Rightarrow> bool" where
  "chat_inv s =
     ((pending s = NoCall) = (\<not> isAiTyping s) \<and>
      (case pending s of
         Streaming fullText \<Rightarrow>
           chatMessages s \<noteq> [] \<and> role (last (chatMessages s)) = Model \<and>
           streaming (last (chatMessages s)) \<and> msg_text (last (chatMessages s)) = fullText
       | _ \<Rightarrow> chatMessages s = [] \<or> \<not> streaming (last (chatMessages s))))"

text \<open>
  The user message a call creates, the state once the stream is open, and the reply
  assembled from a list of chunks.
\<close>

definition userMsg_of :: "nat \<Rightarrow> chat_state \<Rightarrow> ChatMessage" where
  "userMsg_of now s = \<lparr> role = User, msg_text = chatInput s, timestamp = now, isStreaming = None \<rparr>"

definition opened :: "nat \<Rightarrow> nat \<Rightarrow> chat_state \<Rightarrow> chat_state" where
  "opened t_send t_open s =
     s \<lparr> chatMessages := chatMessages s @ [userMsg_of t_send s, placeholder t_open],
         chatInput := [], isAiTyping := True, chatSessionRef := True, pending := Streaming [] \<rparr>"

definition reply :: "nat \<Rightarrow> string option list \<Rightarrow> bool option \<Rightarrow> ChatMessage" where
  "reply t_open chunks st =
     \<lparr> role = Model, msg_text = concat (map chunk_text chunks), timestamp = t_open, isStreaming = st \<rparr>"

text \<open>
  Runs in which no stream throws, and what they keep: no message before the last one
  is streaming.
\<close>

fun is_StreamThrows :: "chat_event \<Rightarrow> bool" where
  "is_StreamThrows (StreamThrows _) = True"
| "is_StreamThrows _ = False"

definition quiet_inv :: "chat_state \<Rightarrow> bool" where
  "quiet_inv s = (chat_inv s \<and> filter streaming (butlast (chatMessages s)) = [])"

section \<open>Table view: \<open>filteredAndSortedCountries\<close> and \<open>toggleSort\<close>
  (src/index.tsx, lines 774-787, 875-877, 914-923, 963-970)\<close>

record countryInfo =
  iso2 :: string
  iso3 :: string
  flag :: string

record CountryData =
  country :: string
  countryInfo :: countryInfo
  cases :: int
  deaths :: int
  recovered :: int
  active :: int
  population :: int
  continent :: string

text \<open>
  The sort key ranges over the numeric fields of a country, which is what the comparator
  casts it to; the table headers offer cases, active, deaths and recovered.
\<close>

datatype SortKey = Cases | Deaths | Recovered | Active | Population

datatype SortOrder = Asc | Desc

fun field :: "SortKey \<Rightarrow> CountryData \<Rightarrow> int" where
  "field Cases c = cases c"
| "field Deaths c = deaths c"
| "field Recovered c = recovered c"
| "field Active c = active c"
| "field Population c = population c"

text \<open>
  \<open>toLowerCase\<close> on code units below 256: the capital letters are A to Z and, in the
  upper half, 192 to 222 without the multiplication sign 215; each has its small letter
  32 places up.
\<close>

definition lower_char :: "char \<Rightarrow> char" where
  "lower_char c =
     (let n = (of_char c :: nat)
      in if (65 \<le> n \<and> n \<le> 90) \<or> (192 \<le> n \<and> n \<le> 222 \<and> n \<noteq> 215)
         then char_of (n + 32) else c)"

definition toLowerCase :: "string \<Rightarrow> string" where
  "toLowerCase s = map lower_char s"

text \<open>\<open>hay.includes(needle)\<close>: the needle starts at some position of the hay.\<close>

fun includes_str :: "string \<Rightarrow> string \<Rightarrow> bool" where
  "includes_str [] needle = (needle = [])"
| "includes_str (h # hs) needle = (prefix needle (h # hs) \<or> includes_str hs needle)"

text \<open>
  \<open>Array.prototype.sort\<close> with a comparator is a stable sort: an element goes before
  another when the comparator is negative, and equal elements keep their order. The model
  is the stable insertion sort that consults the comparator.
\<close>

fun insert_by :: "('a \<Rightarrow> 'a \<Rightarrow> int) \<Rightarrow> 'a \<Rightarrow> 'a list \<Rightarrow> 'a list" where
  "insert_by cmp x [] = [x]"
| "insert_by cmp x (y # ys) = (if cmp x y \<le> 0 then x # y # ys else y # insert_by cmp x ys)"

definition sort_by :: "('a \<Rightarrow> 'a \<Rightarrow> int) \<Rightarrow> 'a list \<Rightarrow> 'a list" where
  "sort_by cmp xs = foldr (insert_by cmp) xs []"

definition name_matches :: "string \<Rightarrow> CountryData \<Rightarrow> bool" where
  "name_matches searchTerm c = includes_str (toLowerCase (country c)) (toLowerCase searchTerm)"

definition compare_countries :: "SortKey \<Rightarrow> SortOrder \<Rightarrow> CountryData \<Rightarrow> CountryData \<Rightarrow> int" where
  "compare_countries sortKey sortOrder a b =
     (let valA = field sortKey a; valB = field sortKey b
      in if sortOrder = Desc then valB - valA else valA - valB)"

definition filteredAndSortedCountries ::
  "CountryData list \<Rightarrow> string \<Rightarrow> SortKey \<Rightarrow> SortOrder \<Rightarrow> CountryData list" where
  "filteredAndSortedCountries cs searchTerm sortKey sortOrder =
     take 100 (sort_by (compare_countries sortKey sortOrder) (filter (name_matches searchTerm) cs))"

text \<open>The filter and sort variables of the second variant, and the header click.\<close>

record view_state =
  searchTerm :: string
  sortKey :: SortKey
  sortOrder :: SortOrder
  timeRange :: string

definition initial_view :: view_state where
  "initial_view = \<lparr> searchTerm = [], sortKey = Cases, sortOrder = Desc, timeRange = ''30'' \<rparr>"

definition toggleSort :: "SortKey \<Rightarrow> view_state \<Rightarrow> view_state" where
  "toggleSort key v =
     (if sortKey v = key
      then v \<lparr> sortOrder := (if sortOrder v = Desc then Asc else Desc) \<rparr>
      else v \<lparr> sortKey := key, sortOrder := Desc \<rparr>)"

text \<open>
  The table as the specification words it, with the library's stable sort on a key:
  keep the countries whose lower-cased name contains the lower-cased filter text
  somewhere, sort them by the chosen field, upwards or downwards, and keep the first
  hundred.
\<close>

definition contains :: "string \<Rightarrow> string \<Rightarrow> bool" where
  "contains hay needle = (\<exists>before after. hay = before @ needle @ after)"

definition table_spec ::
  "CountryData list \<Rightarrow> string \<Rightarrow> SortKey \<Rightarrow> SortOrder \<Rightarrow> CountryData list" where
  "table_spec cs txt key order =
     take 100
       (sort_key (\<lambda>c. if order = Desc then - field key c else field key c)
          (filter (\<lambda>c. contains (toLowerCase (country c)) (toLowerCase txt)) cs))"

text \<open>
  The number a row is sorted by, with the sign that turns a descending order into an
  ascending one, and the three countries of the specification's example.
\<close>

definition sort_value :: "SortKey \<Rightarrow> SortOrder \<Rightarrow> CountryData \<Rightarrow> int" where
  "sort_value key order c = (if order = Desc then - field key c else field key c)"

definition france :: CountryData where
  "france = \<lparr> country = ''France'', countryInfo = \<lparr> iso2 = ''FR'', iso3 = ''FRA'', flag = [] \<rparr>,
              cases = 3, deaths = 0, recovered = 0, active = 0, population = 0,
              continent = ''Europe'' \<rparr>"

definition germany :: CountryData where
  "germany = \<lparr> country = ''Germany'', countryInfo = \<lparr> iso2 = ''DE'', iso3 = ''DEU'', flag = [] \<rparr>,
               cases = 5, deaths = 0, recovered = 0, active = 0, population = 0,
               continent = ''Europe'' \<rparr>"

definition francistan :: CountryData where
  "francistan = \<lparr> country = ''Francistan'', countryInfo = \<lparr> iso2 = ''FS'', iso3 = ''FST'', flag = [] \<rparr>,
                  cases = 7, deaths = 0, recovered = 0, active = 0, population = 0,
                  continent = ''Asia'' \<rparr>"

section \<open>Properties of the data store\<close>

lemma snapshot_addNotification [simp]: "snapshot (addNotification cfg now t s) = snapshot s"
  by (simp add: addNotification_def snapshot_def)

lemma snapshot_timeout_fires [simp]: "snapshot (timeout_fires k s) = snapshot s"
  by (simp add: timeout_fires_def snapshot_def)

lemma snapshot_fetchData_begin [simp]: "snapshot (fetchData_begin s) = snapshot s"
  by (simp add: fetchData_begin_def snapshot_def)

lemma snapshot_fetchData_settle:
  "snapshot (fetchData_settle cfg now gRes cRes hRes s) =
     (case bodies gRes cRes hRes of None \<Rightarrow> snapshot s | Some t \<Rightarrow> t)"
  by (cases gRes; cases cRes; cases hRes)
     (auto simp: fetchData_settle_def fetchData_catch_def bodies_def Let_def snapshot_def
                 addNotification_def
           split: sum.splits)

lemma snapshot_fetchData2_begin [simp]: "snapshot (fetchData2_begin s) = snapshot s"
  by (simp add: fetchData2_begin_def snapshot_def)

lemma snapshot_fetchData2_settle:
  "snapshot (fetchData2_settle first gRes cRes hRes s) =
     (case delivered gRes cRes hRes of None \<Rightarrow> snapshot s | Some t \<Rightarrow> t)"
  by (cases gRes; cases cRes; cases hRes)
     (auto simp: fetchData2_settle_def fetchData2_catch_def Promise_all_def delivered_def Let_def
                 snapshot_def
           split: sum.splits)

lemma snapshot_store_run: "snapshot (store_run s evs) \<in> set (snapshot s # bodies_of evs)"
proof (induction evs arbitrary: s)
  case Nil
  show ?case by (simp add: store_run_def)
next
  case (Cons e evs)
  have step: "store_run s (e # evs) = store_run (store_step s e) evs"
    by (simp add: store_run_def)
  show ?case
  proof (cases e)
    case Begin
    with Cons [of "fetchData_begin s"] step show ?thesis by auto
  next
    case (Settle cfg now gRes cRes hRes)
    with Cons [of "fetchData_settle cfg now gRes cRes hRes s"] step show ?thesis
      by (auto simp: snapshot_fetchData_settle split: option.splits)
  next
    case (Push cfg now t)
    with Cons [of "addNotification cfg now t s"] step show ?thesis by auto
  next
    case (Expire k)
    with Cons [of "timeout_fires k s"] step show ?thesis by auto
  qed
qed

lemma snapshot_store2_run: "snapshot (store2_run s evs) \<in> set (snapshot s # deliveries evs)"
proof (induction evs arbitrary: s)
  case Nil
  show ?case by (simp add: store2_run_def)
next
  case (Cons e evs)
  have step: "store2_run s (e # evs) = store2_run (store2_step s e) evs"
    by (simp add: store2_run_def)
  show ?case
  proof (cases e)
    case Begin2
    with Cons [of "fetchData2_begin s"] step show ?thesis by auto
  next
    case (Settle2 first gRes cRes hRes)
    with Cons [of "fetchData2_settle first gRes cRes hRes s"] step show ?thesis
      by (auto simp: snapshot_fetchData2_settle split: option.splits)
  qed
qed

text \<open>
  What holds of both variants: a call leaves the three data variables alone when it
  begins, and when it settles it writes all three together or none of them, so that over
  any sequence of beginnings and settlings, overlapping or not, the three variables read
  together are the initial triple or the triple written by one single call. The second
  variant writes exactly when the refresh has succeeded. The first writes whenever the
  bodies parse.
\<close>

lemma refresh_writes_together:
  "snapshot (fetchData_begin s) = snapshot s \<and>
   snapshot (fetchData cfg now gRes cRes hRes s) =
     (case bodies gRes cRes hRes of None \<Rightarrow> snapshot s | Some t \<Rightarrow> t) \<and>
   snapshot (store_run s evs) \<in> set (snapshot s # bodies_of evs) \<and>
   snapshot (fetchData2_begin s2) = snapshot s2 \<and>
   snapshot (fetchData2 first gRes cRes hRes s2) =
     (case delivered gRes cRes hRes of None \<Rightarrow> snapshot s2 | Some t \<Rightarrow> t) \<and>
   snapshot (store2_run s2 evs2) \<in> set (snapshot s2 # deliveries evs2)"
  by (simp only: fetchData_def fetchData2_def snapshot_fetchData_settle
        snapshot_fetchData2_settle snapshot_fetchData_begin snapshot_fetchData2_begin
        snapshot_store_run snapshot_store2_run simp_thms)

text \<open>
  Claim C1 at the failing input. The requests for the global summary and the historical
  series succeed, the request for the countries is answered with an HTTP error status
  and a body that parses: the refresh has failed. The first variant, which never reads
  \<open>ok\<close>, nevertheless replaces all three variables, the countries by the error body; the
  second variant, which checks \<open>ok\<close>, keeps the previous snapshot on the same input.
\<close>

theorem refresh_replaces_on_http_error:
  "delivered (Inr \<lparr> ok = True, json = Inr (1::nat) \<rparr>)
             (Inr \<lparr> ok = False, json = Inr [404::nat] \<rparr>)
             (Inr \<lparr> ok = True, json = Inr (3::nat) \<rparr>) = None \<and>
   snapshot (fetchData initial_config 7
      (Inr \<lparr> ok = True, json = Inr (1::nat) \<rparr>)
      (Inr \<lparr> ok = False, json = Inr [404::nat] \<rparr>)
      (Inr \<lparr> ok = True, json = Inr (3::nat) \<rparr>)
      \<lparr> globalStats = Some 10, countries = [20], historical = Some 30, loading = False,
        notifications = [], timeouts = [], systemStatus = ''Active'' \<rparr>)
     = (Some 1, [404], Some 3) \<and>
   snapshot (fetchData2 0
      (Inr \<lparr> ok = True, json = Inr (1::nat) \<rparr>)
      (Inr \<lparr> ok = False, json = Inr [404::nat] \<rparr>)
      (Inr \<lparr> ok = True, json = Inr (3::nat) \<rparr>)
      \<lparr> globalStats = Some 10, countries = [20], historical = Some 30, loading = False,
        error = None \<rparr>)
     = (Some 10, [20], Some 30)"
  by (simp add: delivered_def fetchData_def fetchData_begin_def fetchData_settle_def
        fetchData2_def fetchData2_begin_def fetchData2_settle_def fetchData2_catch_def
        Promise_all_def addNotification_def initial_config_def snapshot_def Let_def)

section \<open>Properties of the notification queue\<close>

lemma store_run_Cons: "store_run s (e # evs) = store_run (store_step s e) evs"
  by (simp add: store_run_def)

lemma notifications_pushes:
  "cfg_notifications cfg \<Longrightarrow>
   notifications (store_run s (pushes cfg ps)) =
     notifications s @ map (\<lambda>(now, t). \<lparr> n_id = now, n_text = t \<rparr>) ps"
  by (induction ps arbitrary: s) (auto simp: addNotification_def pushes_def store_run_def)

lemma timed_addNotification: "timed s \<Longrightarrow> timed (addNotification cfg now t s)"
  by (auto simp: timed_def addNotification_def)

lemma timed_update [simp]:
  "timed (s \<lparr> loading := b \<rparr>) = timed s"
  "timed (s \<lparr> systemStatus := x \<rparr>) = timed s"
  "timed (s \<lparr> globalStats := g \<rparr>) = timed s"
  "timed (s \<lparr> countries := c \<rparr>) = timed s"
  "timed (s \<lparr> historical := h \<rparr>) = timed s"
  by (simp_all add: timed_def)

lemma in_set_remove_nth:
  assumes "x \<in> set xs" "k < length xs" "x \<noteq> xs ! k"
  shows "x \<in> set (take k xs @ drop (Suc k) xs)"
proof -
  from assms(1) obtain i where i: "i < length xs" "xs ! i = x"
    by (auto simp: in_set_conv_nth)
  with assms(3) have "i \<noteq> k" by auto
  then consider "i < k" | "k < i" by arith
  then show ?thesis
  proof cases
    case 1
    with i assms(2) have "take k xs ! i = x" "i < length (take k xs)" by simp_all
    then have "x \<in> set (take k xs)" by (metis nth_mem)
    then show ?thesis by simp
  next
    case 2
    with i have "drop (Suc k) xs ! (i - Suc k) = x" "i - Suc k < length (drop (Suc k) xs)"
      by simp_all
    then have "x \<in> set (drop (Suc k) xs)" by (metis nth_mem)
    then show ?thesis by simp
  qed
qed

lemma timed_timeout_fires:
  assumes "timed s"
  shows "timed (timeout_fires k s)"
proof (cases "k < length (timeouts s)")
  case False
  with assms show ?thesis by (simp add: timeout_fires_def)
next
  case True
  show ?thesis
    unfolding timed_def
  proof
    fix n
    assume "n \<in> set (notifications (timeout_fires k s))"
    with True have n: "n \<in> set (notifications s)" and ne: "n_id n \<noteq> snd (timeouts s ! k)"
      by (simp_all add: timeout_fires_def)
    from assms n obtain p where p: "p \<in> set (timeouts s)" "snd p = n_id n"
      by (auto simp: timed_def)
    with ne have "p \<noteq> timeouts s ! k" by auto
    with p True have "p \<in> set (take k (timeouts s) @ drop (Suc k) (timeouts s))"
      by (intro in_set_remove_nth)
    with True have "p \<in> set (timeouts (timeout_fires k s))"
      by (simp add: timeout_fires_def del: set_append)
    then have "snd p \<in> snd ` set (timeouts (timeout_fires k s))"
      by (rule imageI)
    with p show "n_id n \<in> snd ` set (timeouts (timeout_fires k s))"
      by simp
  qed
qed

lemma timed_fetchData_settle: "timed s \<Longrightarrow> timed (fetchData_settle cfg now gRes cRes hRes s)"
  by (cases gRes; cases cRes; cases hRes)
     (auto simp: fetchData_settle_def fetchData_catch_def Let_def
           intro!: timed_addNotification split: sum.splits)

lemma timed_store_step: "timed s \<Longrightarrow> timed (store_step s e)"
  by (cases e)
     (auto simp: timed_addNotification timed_timeout_fires timed_fetchData_settle
                 fetchData_begin_def)

lemma timed_store_run: "timed s \<Longrightarrow> timed (store_run s evs)"
proof (induction evs arbitrary: s)
  case Nil
  then show ?case by (simp add: store_run_def)
next
  case (Cons e evs)
  then show ?case by (simp add: store_run_Cons timed_store_step)
qed

lemma length_timeout_fires: "length (notifications (timeout_fires k s)) \<le> length (notifications s)"
  by (simp add: timeout_fires_def)

lemma notifications_timeout_fires:
  "notifications (timeout_fires k s) =
     (if k < length (timeouts s)
      then filter (\<lambda>n. n_id n \<noteq> snd (timeouts s ! k)) (notifications s)
      else notifications s)"
  by (simp add: timeout_fires_def)

lemma notification_kept_by_addNotification:
  "n \<in> set (notifications s) \<Longrightarrow> n \<in> set (notifications (addNotification cfg now t s))"
  by (simp add: addNotification_def)

lemma notification_kept_by_settle:
  "n \<in> set (notifications s) \<Longrightarrow> n \<in> set (notifications (fetchData_settle cfg now gRes cRes hRes s))"
  by (cases gRes; cases cRes; cases hRes)
     (auto simp: fetchData_settle_def fetchData_catch_def addNotification_def Let_def
           split: sum.splits)

lemma leaves_only_by_timer:
  assumes "n \<in> set (notifications s)" "n \<notin> set (notifications (store_step s e))"
  shows "\<exists>k. e = Expire k \<and> k < length (timeouts s) \<and> snd (timeouts s ! k) = n_id n"
proof (cases e)
  case Begin
  with assms show ?thesis by (simp add: fetchData_begin_def)
next
  case (Settle cfg now gRes cRes hRes)
  with assms notification_kept_by_settle [of n s cfg now gRes cRes hRes] show ?thesis by simp
next
  case (Push cfg now t)
  with assms notification_kept_by_addNotification [of n s cfg now t] show ?thesis by simp
next
  case (Expire k)
  with assms show ?thesis by (auto simp: notifications_timeout_fires split: if_splits)
qed

text \<open>
  Claim C6, as the code has it. The queue has no maximum size. While notifications are
  enabled a push appends its entry at the end, removes nothing, and arms a removal timer
  that carries the entry's id and is due 5000 ms after the push, so a burst of pushes
  lengthens the queue by the number of pushes. A removal timer that fires removes
  exactly the entries with the id it carries, and an entry leaves the queue by no other
  event than the firing of a timer that carries its id. An expiry never lengthens the
  queue, and over any sequence of events every entry keeps such a timer pending.
\<close>

theorem push_appends_without_eviction:
  "cfg_notifications cfg \<Longrightarrow>
     notifications (addNotification cfg now t s) =
       notifications s @ [\<lparr> n_id = now, n_text = t \<rparr>] \<and>
     timeouts (addNotification cfg now t s) = timeouts s @ [(now + 5000, now)] \<and>
     length (notifications (store_run s (pushes cfg ps))) = length (notifications s) + length ps \<and>
     notifications (timeout_fires k s) =
       (if k < length (timeouts s)
        then filter (\<lambda>n. n_id n \<noteq> snd (timeouts s ! k)) (notifications s)
        else notifications s) \<and>
     (\<forall>n \<in> set (notifications s).
        n \<notin> set (notifications (store_step s e)) \<longrightarrow>
          (\<exists>j. e = Expire j \<and> j < length (timeouts s) \<and> snd (timeouts s ! j) = n_id n)) \<and>
     length (notifications (timeout_fires k s)) \<le> length (notifications s) \<and>
     (timed s \<longrightarrow> timed (store_run s evs))"
proof -
  assume on: "cfg_notifications cfg"
  then have push: "notifications (addNotification cfg now t s) =
       notifications s @ [\<lparr> n_id = now, n_text = t \<rparr>]"
    and arm: "timeouts (addNotification cfg now t s) = timeouts s @ [(now + 5000, now)]"
    by (simp_all add: addNotification_def)
  have burst: "length (notifications (store_run s (pushes cfg ps))) =
      length (notifications s) + length ps"
    using on by (simp add: notifications_pushes)
  have only: "\<forall>n \<in> set (notifications s).
        n \<notin> set (notifications (store_step s e)) \<longrightarrow>
          (\<exists>j. e = Expire j \<and> j < length (timeouts s) \<and> snd (timeouts s ! j) = n_id n)"
    using leaves_only_by_timer [of _ s e] by blast
  from push arm burst notifications_timeout_fires [of k s] only length_timeout_fires [of k s]
    timed_store_run [of s evs]
  show ?thesis by blast
qed

theorem push_appends_without_eviction_witness:
  "cfg_notifications initial_config \<and>
   notifications (addNotification initial_config 1 ''a'' (initial_app :: (nat, nat, nat) app_state)) =
     [\<lparr> n_id = 1, n_text = ''a'' \<rparr>] \<and>
   timeouts (addNotification initial_config 1 ''a'' (initial_app :: (nat, nat, nat) app_state)) =
     [(5001, 1)] \<and>
   length (notifications (store_run (initial_app :: (nat, nat, nat) app_state)
     (pushes initial_config [(1, ''a''), (1, ''b''), (2, ''c'')]))) = 3 \<and>
   notifications (timeout_fires 0
     (addNotification initial_config 2 ''b''
        (addNotification initial_config 1 ''a'' (initial_app :: (nat, nat, nat) app_state)))) =
     [\<lparr> n_id = 2, n_text = ''b'' \<rparr>] \<and>
   timed (store_run (initial_app :: (nat, nat, nat) app_state) [Push initial_config 1 ''a'', Expire 0])"
proof -
  let ?s = "addNotification initial_config 2 ''b''
        (addNotification initial_config 1 ''a'' (initial_app :: (nat, nat, nat) app_state))"
  have on: "cfg_notifications initial_config"
    by (simp add: initial_config_def)
  have t0: "timed (initial_app :: (nat, nat, nat) app_state)"
    by (simp add: timed_def initial_app_def)
  have s: "timeouts ?s = [(5001, 1), (5002, 2)]"
    "notifications ?s = [\<lparr> n_id = 1, n_text = ''a'' \<rparr>, \<lparr> n_id = 2, n_text = ''b'' \<rparr>]"
    using on by (simp_all add: addNotification_def initial_app_def)
  note A = push_appends_without_eviction
         [OF on, where now = 1 and t = "''a''" and s = "initial_app :: (nat, nat, nat) app_state"
            and ps = "[(1, ''a''), (1, ''b''), (2, ''c'')]" and k = 0
            and evs = "[Push initial_config 1 ''a'', Expire 0]" and e = "Expire 0"]
  note B = push_appends_without_eviction
         [OF on, where now = 1 and t = "''a''" and s = ?s and ps = "[]" and k = 0
            and evs = "[]" and e = "Expire 0"]
  from B s have fired: "notifications (timeout_fires 0 ?s) = [\<lparr> n_id = 2, n_text = ''b'' \<rparr>]"
    by simp
  from A on t0 fired show ?thesis by (simp add: initial_app_def)
qed

text \<open>
  The claim as stated fails: whatever maximum is proposed, some sequence of pushes from
  the initial state makes the queue longer.
\<close>

theorem queue_cap_counterexample:
  "\<not> (\<exists>cap. \<forall>evs.
        length (notifications (store_run (initial_app :: (nat, nat, nat) app_state) evs)) \<le> cap)"
proof
  assume "\<exists>cap. \<forall>evs.
    length (notifications (store_run (initial_app :: (nat, nat, nat) app_state) evs)) \<le> cap"
  then obtain cap where bound:
    "\<And>evs. length (notifications (store_run (initial_app :: (nat, nat, nat) app_state) evs)) \<le> cap"
    by blast
  have on: "cfg_notifications initial_config"
    by (simp add: initial_config_def)
  have "length (notifications (store_run (initial_app :: (nat, nat, nat) app_state)
          (pushes initial_config (replicate (Suc cap) (0, []))))) = Suc cap"
    by (simp only: notifications_pushes [OF on]) (simp add: initial_app_def)
  with bound [of "pushes initial_config (replicate (Suc cap) (0, []))"]
  show False by simp
qed

lemma numbered_initial: "numbered initial_live"
  by (simp add: numbered_def initial_live_def)

lemma numbered_step: "numbered s \<Longrightarrow> numbered (live_step s ev)"
  by (cases ev) (auto simp: numbered_def live_call_def less_Suc_eq split: option.splits)

lemma live_run_snoc: "live_run s (evs @ [ev]) = live_step (live_run s evs) ev"
  by (simp add: live_run_def)

lemma live_run_Cons: "live_run s (ev # evs) = live_run (live_step s ev) evs"
  by (simp add: live_run_def)

lemma numbered_run: "numbered s \<Longrightarrow> numbered (live_run s evs)"
  by (induction evs rule: rev_induct) (simp_all add: live_run_def numbered_step)

lemma find_append_new:
  "\<forall>p \<in> set xs. fst p \<noteq> c \<Longrightarrow> find (\<lambda>p. fst p = c) (xs @ [(c, v)]) = Some (c, v)"
  by (induction xs) auto

lemma find_begun:
  assumes "numbered s" "begins ev"
  shows "find (\<lambda>p. fst p = next_call s) (inflight (live_step s ev)) =
           Some (next_call s, config (live_step s ev))"
proof -
  from assms(1) have "\<forall>p \<in> set (inflight s). fst p \<noteq> next_call s"
    by (auto simp: numbered_def)
  with assms(2) show ?thesis
    by (cases ev) (simp_all add: live_call_def find_append_new)
qed

lemma find_filter_other:
  "c' \<noteq> c \<Longrightarrow> find (\<lambda>p. fst p = c) (filter (\<lambda>p. fst p \<noteq> c') xs) = find (\<lambda>p. fst p = c) xs"
  by (induction xs) auto

lemma find_append_old:
  "find P xs = Some x \<Longrightarrow> find P (xs @ ys) = Some x"
  by (induction xs) (auto split: if_splits)

lemma find_kept:
  assumes "find (\<lambda>p. fst p = c) (inflight s) = Some (c, cfg)" "\<not> settles c ev"
  shows "find (\<lambda>p. fst p = c) (inflight (live_step s ev)) = Some (c, cfg)"
  using assms
  by (cases ev) (auto simp: live_call_def find_append_old find_filter_other split: option.splits)

lemma find_kept_run:
  "find (\<lambda>p. fst p = c) (inflight s) = Some (c, cfg) \<Longrightarrow> list_all (\<lambda>ev. \<not> settles c ev) evs \<Longrightarrow>
   find (\<lambda>p. fst p = c) (inflight (live_run s evs)) = Some (c, cfg)"
proof (induction evs arbitrary: s)
  case Nil
  then show ?case by (simp add: live_run_def)
next
  case (Cons ev evs)
  from Cons.prems have "find (\<lambda>p. fst p = c) (inflight (live_step s ev)) = Some (c, cfg)"
    by (intro find_kept) simp_all
  from Cons.IH [OF this] Cons.prems(2) show ?case by (simp add: live_run_Cons)
qed

lemma addNotification_off: "\<not> cfg_notifications cfg \<Longrightarrow> addNotification cfg now t s = s"
  by (simp add: addNotification_def)

lemma settle_off:
  assumes "\<not> cfg_notifications cfg"
  shows "notifications (fetchData_settle cfg now gRes cRes hRes s) = notifications s \<and>
         timeouts (fetchData_settle cfg now gRes cRes hRes s) = timeouts s"
  using assms
  by (cases gRes; cases cRes; cases hRes)
     (auto simp: addNotification_def fetchData_settle_def fetchData_catch_def Let_def
           split: sum.splits)

lemma settle_call_off:
  assumes "find (\<lambda>p. fst p = c) (inflight s) = Some (c, cfg)" "\<not> cfg_notifications cfg"
  shows "notifications (store (live_step s (SettleCall c now gRes cRes hRes))) = notifications (store s) \<and>
         timeouts (store (live_step s (SettleCall c now gRes cRes hRes))) = timeouts (store s)"
  using assms settle_off [OF assms(2), of now gRes cRes hRes "store s"] by simp

text \<open>
  Claim C10, as the code has it. A push through an \<open>addNotification\<close> that was created
  while the notifications setting is off is a silent return. For a handler of the current
  render, called while the setting is off, the whole state is as before: the
  notification list is unchanged, no removal timer is armed, no id is taken. For a call
  of \<open>fetchData\<close> that begins while the setting is off (or by the click that switches it
  off), whatever happens until it settles, the settling adds no notification and arms no
  timer, whether the refresh succeeds or fails.
\<close>

theorem notifications_off_closure_noop:
  "(\<not> cfg_notifications (config s) \<longrightarrow> live_step s (Notify now t) = s) \<and>
   (begins ev \<and> \<not> cfg_notifications (config (live_step (live_run initial_live pre) ev)) \<and>
    list_all (\<lambda>e. \<not> settles (next_call (live_run initial_live pre)) e) evs \<longrightarrow>
      notifications (store (live_run initial_live
          (pre @ ev # evs @ [SettleCall (next_call (live_run initial_live pre)) now gRes cRes hRes]))) =
        notifications (store (live_run initial_live (pre @ ev # evs))) \<and>
      timeouts (store (live_run initial_live
          (pre @ ev # evs @ [SettleCall (next_call (live_run initial_live pre)) now gRes cRes hRes]))) =
        timeouts (store (live_run initial_live (pre @ ev # evs))))"
proof -
  let ?s0 = "live_run initial_live pre"
  let ?c = "next_call ?s0"
  have direct: "live_step s (Notify now t) = s" if "\<not> cfg_notifications (config s)"
    using that by (simp add: addNotification_off)
  have later: "notifications (store (live_run initial_live
          (pre @ ev # evs @ [SettleCall ?c now gRes cRes hRes]))) =
        notifications (store (live_run initial_live (pre @ ev # evs))) \<and>
      timeouts (store (live_run initial_live
          (pre @ ev # evs @ [SettleCall ?c now gRes cRes hRes]))) =
        timeouts (store (live_run initial_live (pre @ ev # evs)))"
    if b: "begins ev" and off: "\<not> cfg_notifications (config (live_step ?s0 ev))"
      and others: "list_all (\<lambda>e. \<not> settles ?c e) evs"
  proof -
    let ?s1 = "live_run (live_step ?s0 ev) evs"
    have run1: "live_run initial_live (pre @ ev # evs) = ?s1"
      by (simp add: live_run_def)
    have run2: "live_run initial_live (pre @ ev # evs @ [SettleCall ?c now gRes cRes hRes]) =
                live_step ?s1 (SettleCall ?c now gRes cRes hRes)"
      by (simp add: live_run_def)
    have "numbered ?s0" using numbered_initial by (rule numbered_run)
    then have "find (\<lambda>p. fst p = ?c) (inflight (live_step ?s0 ev)) =
                 Some (?c, config (live_step ?s0 ev))"
      using b by (rule find_begun)
    then have "find (\<lambda>p. fst p = ?c) (inflight ?s1) = Some (?c, config (live_step ?s0 ev))"
      using others by (rule find_kept_run)
    from settle_call_off [OF this off] show ?thesis
      unfolding run1 run2 .
  qed
  from direct later show ?thesis by blast
qed

theorem notifications_off_closure_noop_witness:
  "\<not> cfg_notifications (config (live_run (initial_live :: (nat, nat, nat) live_state) [ToggleNotifications])) \<and>
   live_step (live_run (initial_live :: (nat, nat, nat) live_state) [ToggleNotifications])
       (Notify 5 ''Session Purged.'') =
     live_run initial_live [ToggleNotifications] \<and>
   begins (CallFetchData :: (nat, nat, nat) live_event) \<and>
   list_all (\<lambda>e. \<not> settles 1 e) [ToggleNotifications :: (nat, nat, nat) live_event] \<and>
   notifications (store (live_run (initial_live :: (nat, nat, nat) live_state)
       [ToggleNotifications, CallFetchData, ToggleNotifications,
        SettleCall 1 5 (Inl (Error ''Failed to fetch'')) (Inl (Error ''Failed to fetch''))
          (Inl (Error ''Failed to fetch''))])) = []"
proof -
  let ?s = "live_run (initial_live :: (nat, nat, nat) live_state) [ToggleNotifications]"
  have off: "\<not> cfg_notifications (config ?s)"
    by (simp add: live_run_def live_call_def initial_live_def initial_config_def)
  have off': "\<not> cfg_notifications (config (live_step ?s CallFetchData))"
    by (simp add: live_run_def live_call_def initial_live_def initial_config_def)
  have c: "next_call ?s = 1"
    by (simp add: live_run_def live_call_def initial_live_def)
  have n: "notifications (store (live_run (initial_live :: (nat, nat, nat) live_state)
             ([ToggleNotifications] @ CallFetchData # [ToggleNotifications]))) = []"
    by (simp add: live_run_def live_call_def initial_live_def initial_app_def fetchData_begin_def)
  note T = notifications_off_closure_noop
     [where s = ?s and now = 5 and t = "''Session Purged.''" and ev = CallFetchData
        and pre = "[ToggleNotifications]" and evs = "[ToggleNotifications]"
        and gRes = "Inl (Error ''Failed to fetch'')" and cRes = "Inl (Error ''Failed to fetch'')"
        and hRes = "Inl (Error ''Failed to fetch'')"]
  from T off have a: "live_step ?s (Notify 5 ''Session Purged.'') = ?s" by blast
  have l: "list_all (\<lambda>e. \<not> settles 1 e) [ToggleNotifications :: (nat, nat, nat) live_event]"
    by simp
  have hyp: "begins (CallFetchData :: (nat, nat, nat) live_event) \<and>
             \<not> cfg_notifications (config (live_step ?s CallFetchData)) \<and>
             list_all (\<lambda>e. \<not> settles (next_call ?s) e)
               [ToggleNotifications :: (nat, nat, nat) live_event]"
    using off' by simp
  note kept = T [THEN conjunct2, THEN mp, OF hyp, THEN conjunct1]
  from kept n have b: "notifications (store (live_run (initial_live :: (nat, nat, nat) live_state)
       [ToggleNotifications, CallFetchData, ToggleNotifications,
        SettleCall 1 5 (Inl (Error ''Failed to fetch'')) (Inl (Error ''Failed to fetch''))
          (Inl (Error ''Failed to fetch''))])) = []"
    by (simp add: c)
  from off a b l show ?thesis by simp
qed

text \<open>
  The claim as stated fails: a refresh begins while the setting is on, the setting is
  switched off, and the refresh then settles. At that moment the setting in the state is
  off and the queue is empty, yet the push made by the settling refresh adds its
  notification and arms a timer.
\<close>

theorem stale_closure_counterexample:
  "\<not> cfg_notifications (config (live_run (initial_live :: (nat, nat, nat) live_state)
        [CallFetchData, ToggleNotifications])) \<and>
   notifications (store (live_run (initial_live :: (nat, nat, nat) live_state)
        [CallFetchData, ToggleNotifications])) = [] \<and>
   notifications (store (live_run (initial_live :: (nat, nat, nat) live_state)
        [CallFetchData, ToggleNotifications,
         SettleCall 0 5 (Inr \<lparr> ok = True, json = Inr 1 \<rparr>) (Inr \<lparr> ok = True, json = Inr [2] \<rparr>)
           (Inr \<lparr> ok = True, json = Inr 3 \<rparr>)])) =
     [\<lparr> n_id = 5, n_text = ''Quantum Data Link Established.'' \<rparr>] \<and>
   timeouts (store (live_run (initial_live :: (nat, nat, nat) live_state)
        [CallFetchData, ToggleNotifications,
         SettleCall 0 5 (Inr \<lparr> ok = True, json = Inr 1 \<rparr>) (Inr \<lparr> ok = True, json = Inr [2] \<rparr>)
           (Inr \<lparr> ok = True, json = Inr 3 \<rparr>)])) = [(5005, 5)]"
  by (simp add: live_run_def live_call_def initial_live_def initial_config_def initial_app_def
        fetchData_begin_def fetchData_settle_def addNotification_def Let_def)

section \<open>Properties of the exporter\<close>

lemma split_on_no_sep: "c \<notin> set x \<Longrightarrow> split_on c x = [x]"
  by (induction x) auto

lemma split_on_append_sep: "c \<notin> set x \<Longrightarrow> split_on c (x @ c # rest) = x # split_on c rest"
  by (induction x) auto

lemma split_on_join:
  "xs \<noteq> [] \<Longrightarrow> \<forall>x \<in> set xs. c \<notin> set x \<Longrightarrow> split_on c (join [c] xs) = xs"
proof (induction "[c]" xs rule: join.induct)
  case 1
  then show ?case by simp
next
  case (2 x)
  then show ?case by (simp add: split_on_no_sep)
next
  case (3 x y ys)
  then show ?case by (simp add: split_on_append_sep)
qed

lemma set_join: "set (join sep xs) \<subseteq> set sep \<union> \<Union> (set ` set xs)"
  by (induction sep xs rule: join.induct) auto

lemma length_join:
  "length (join sep xs) = sum_list (map length xs) + (length xs - 1) * length sep"
  by (induction sep xs rule: join.induct) auto

lemma no_newline_join_comma:
  "\<forall>x \<in> set xs. no_newline x \<Longrightarrow> no_newline (join '','' xs)"
  using set_join [of "'',''" xs] by (auto simp: no_newline_def)

lemma exportToCSV_content:
  "data \<noteq> [] \<Longrightarrow>
   exportToCSV data filename =
     Some \<lparr> csvContent = csv_prefix @ join newline (join '','' (keys (hd data)) # map csv_row data),
            download_name = filename @ ''.csv'' \<rparr>"
  by (cases data) (auto simp: exportToCSV_def Let_def csv_row_def [abs_def] split: list.splits)

lemma csv_lines_content:
  assumes "lines \<noteq> []" "\<forall>l \<in> set lines. no_newline l"
  shows "csv_lines \<lparr> csvContent = csv_prefix @ join newline lines, download_name = n \<rparr> = lines"
  using split_on_join [of lines "CHR 0x0A"] assms
  by (simp add: csv_lines_def newline_def no_newline_def)

text \<open>
  Claim C5, as the code has it. For a non-empty sequence of records the exporter
  produces the fixed prefix followed by the header line (the first record's field names
  joined by commas) and one line per record (its values joined by commas), the lines
  joined by newlines; when no field name and no value contains a newline, these are
  exactly the lines of the text. Values are written as they are, without quoting or
  escaping: a row is as long as its values together plus the commas between them.
\<close>

theorem exportToCSV_verbatim:
  "data \<noteq> [] \<Longrightarrow>
     (\<exists>d. exportToCSV data filename = Some d \<and>
          download_name d = filename @ ''.csv'' \<and>
          csvContent d =
            csv_prefix @ join newline (join '','' (keys (hd data)) # map csv_row data) \<and>
          ((\<forall>k \<in> set (keys (hd data)). no_newline k) \<and>
           (\<forall>obj \<in> set data. \<forall>v \<in> set (vals obj). no_newline (element_string v)) \<longrightarrow>
             csv_lines d = join '','' (keys (hd data)) # map csv_row data)) \<and>
     (\<forall>obj \<in> set data.
        length (csv_row obj) =
          sum_list (map (length \<circ> element_string) (vals obj)) + (length (vals obj) - 1))"
proof -
  assume ne: "data \<noteq> []"
  let ?lines = "join '','' (keys (hd data)) # map csv_row data"
  let ?d = "\<lparr> csvContent = csv_prefix @ join newline ?lines, download_name = filename @ ''.csv'' \<rparr>"
  have d: "exportToCSV data filename = Some ?d"
    using ne by (rule exportToCSV_content)
  have lines: "csv_lines ?d = ?lines"
    if "\<forall>k \<in> set (keys (hd data)). no_newline k"
      and "\<forall>obj \<in> set data. \<forall>v \<in> set (vals obj). no_newline (element_string v)"
  proof (rule csv_lines_content)
    show "?lines \<noteq> []" by simp
    have "no_newline (join '','' (keys (hd data)))"
      using that(1) by (rule no_newline_join_comma)
    moreover have "no_newline (csv_row obj)" if "obj \<in> set data" for obj
      unfolding csv_row_def using that \<open>\<forall>obj \<in> set data. \<forall>v \<in> set (vals obj). no_newline (element_string v)\<close>
      by (intro no_newline_join_comma) auto
    ultimately show "\<forall>l \<in> set ?lines. no_newline l" by auto
  qed
  have len: "length (csv_row obj) =
          sum_list (map (length \<circ> element_string) (vals obj)) + (length (vals obj) - 1)" for obj
    by (simp add: csv_row_def length_join)
  from d lines len show ?thesis by auto
qed

theorem exportToCSV_verbatim_witness:
  "[[(''a'', JString ''1,2''), (''b'', JString ''x'')]] \<noteq> [] \<and>
   (\<exists>d. exportToCSV [[(''a'', JString ''1,2''), (''b'', JString ''x'')]] ''t'' = Some d \<and>
        download_name d = ''t.csv'' \<and>
        csvContent d = ''data:text/csv;charset=utf-8,a,b'' @ [CHR 0x0A] @ ''1,2,x'' \<and>
        csv_lines d = [''a,b'', ''1,2,x''])"
  using exportToCSV_verbatim [of "[[(''a'', JString ''1,2''), (''b'', JString ''x'')]]" "''t''"]
  by (simp add: keys_def vals_def csv_row_def no_newline_def csv_prefix_def newline_def)

text \<open>
  The claim as stated fails on its own example: the record \<open>{a: "1,2", b: "x"}\<close> is
  exported with the row \<open>1,2,x\<close>, not with the value in quotes.
\<close>

theorem exportToCSV_quoting_counterexample:
  \<open>map_option csvContent (exportToCSV [[(''a'', JString ''1,2''), (''b'', JString ''x'')]] ''t'')
     = Some (csv_prefix @ ''a,b'' @ newline @ ''1,2,x'') \<and>
   map_option csvContent (exportToCSV [[(''a'', JString ''1,2''), (''b'', JString ''x'')]] ''t'')
     \<noteq> Some (csv_prefix @ ''a,b'' @ newline @ ''"1,2",x'')\<close>
  by (simp add: exportToCSV_def keys_def vals_def)

section \<open>Properties of the chat session\<close>

lemma chat_inv_initial: "chat_inv initial_chat"
  by (simp add: chat_inv_def initial_chat_def)

lemma chat_inv_step:
  assumes "chat_inv s"
  shows "\<exists>s'. chat_step s ev = Some s' \<and> chat_inv s'"
proof (cases ev)
  case (Input v)
  with assms show ?thesis by (auto simp: chat_inv_def split: call.splits)
next
  case (Send now)
  with assms show ?thesis
    by (auto simp: chat_inv_def sendMessage_call_def Let_def streaming_def split: call.splits)
next
  case InitReturns
  with assms show ?thesis by (auto simp: chat_inv_def split: call.splits)
next
  case (InitThrows now)
  with assms show ?thesis
    by (auto simp: chat_inv_def sendMessage_catch_def sendMessage_finally_def streaming_def
             split: call.splits)
next
  case (StreamOpens now)
  with assms show ?thesis
    by (auto simp: chat_inv_def placeholder_def streaming_def split: call.splits)
next
  case (StreamRejects now)
  with assms show ?thesis
    by (auto simp: chat_inv_def sendMessage_catch_def sendMessage_finally_def streaming_def
             split: call.splits)
next
  case (Chunk c)
  with assms show ?thesis
    by (auto simp: chat_inv_def set_last_text_def Let_def streaming_def split: call.splits)
next
  case StreamEnds
  with assms show ?thesis
    by (auto simp: chat_inv_def end_streaming_def sendMessage_finally_def streaming_def
             split: call.splits)
next
  case (StreamThrows now)
  with assms show ?thesis
    by (auto simp: chat_inv_def sendMessage_catch_def sendMessage_finally_def streaming_def
             split: call.splits)
qed

lemma chat_inv_run: "chat_inv s \<Longrightarrow> \<exists>s'. chat_run s evs = Some s' \<and> chat_inv s'"
proof (induction evs arbitrary: s)
  case Nil
  then show ?case by simp
next
  case (Cons ev evs)
  from chat_inv_step [OF Cons.prems, of ev] obtain s1 where
    s1: "chat_step s ev = Some s1" "chat_inv s1" by blast
  from Cons.IH [OF s1(2)] s1(1) show ?case by simp
qed

lemma chat_inv_reachable:
  assumes "chat_run initial_chat evs = Some s"
  shows "chat_inv s"
  using chat_inv_run [OF chat_inv_initial, of evs] assms by auto

lemma chat_run_append:
  "chat_run s (evs @ evs') = (case chat_run s evs of None \<Rightarrow> None | Some s' \<Rightarrow> chat_run s' evs')"
  by (induction evs arbitrary: s) (auto split: option.splits)

lemma chunks_run:
  assumes "pending s = Streaming fullText" "chatMessages s = before @ [m]" "role m = Model"
    "msg_text m = fullText"
  shows "chat_run s (map Chunk cs) =
     Some (s \<lparr> chatMessages := before @ [m \<lparr> msg_text := fullText @ concat (map chunk_text cs) \<rparr>],
              pending := Streaming (fullText @ concat (map chunk_text cs)) \<rparr>)"
  using assms
proof (induction cs arbitrary: s fullText m)
  case Nil
  then show ?case by simp
next
  case (Cons c cs)
  let ?ft = "fullText @ chunk_text c"
  let ?s1 = "s \<lparr> chatMessages := before @ [m \<lparr> msg_text := ?ft \<rparr>], pending := Streaming ?ft \<rparr>"
  have step: "chat_step s (Chunk c) = Some ?s1"
    using Cons.prems by (simp add: set_last_text_def Let_def)
  have "chat_run ?s1 (map Chunk cs) =
     Some (?s1 \<lparr> chatMessages := before @ [(m \<lparr> msg_text := ?ft \<rparr>) \<lparr> msg_text := ?ft @ concat (map chunk_text cs) \<rparr>],
              pending := Streaming (?ft @ concat (map chunk_text cs)) \<rparr>)"
    using Cons.prems by (intro Cons.IH) simp_all
  with step show ?case by simp
qed

lemma exchange_opens:
  assumes "trim (chatInput s) \<noteq> []" "\<not> isAiTyping s"
  shows "chat_run s (Send t_send # (if chatSessionRef s then [] else [InitReturns]) @
                     [StreamOpens t_open]) = Some (opened t_send t_open s)"
proof (cases "chatSessionRef s")
  case True
  then have "s \<lparr> chatSessionRef := True \<rparr> = s" by simp
  with True assms show ?thesis
    by (simp add: sendMessage_call_def Let_def opened_def userMsg_of_def)
next
  case False
  with assms show ?thesis
    by (simp add: sendMessage_call_def Let_def opened_def userMsg_of_def)
qed

lemma exchange_run:
  assumes "trim (chatInput s) \<noteq> []" "\<not> isAiTyping s"
  shows "chat_run s (exchange (chatSessionRef s) t_send t_open chunks) =
     Some ((opened t_send t_open s)
             \<lparr> chatMessages := chatMessages s @ [userMsg_of t_send s, reply t_open chunks (Some True)],
               pending := Streaming (concat (map chunk_text chunks)) \<rparr>)"
proof -
  have ex: "exchange (chatSessionRef s) t_send t_open chunks =
      (Send t_send # (if chatSessionRef s then [] else [InitReturns]) @ [StreamOpens t_open]) @
      map Chunk chunks"
    by (simp add: exchange_def)
  have "chat_run (opened t_send t_open s) (map Chunk chunks) =
     Some ((opened t_send t_open s)
       \<lparr> chatMessages := (chatMessages s @ [userMsg_of t_send s]) @
            [(placeholder t_open) \<lparr> msg_text := [] @ concat (map chunk_text chunks) \<rparr>],
         pending := Streaming ([] @ concat (map chunk_text chunks)) \<rparr>)"
    by (rule chunks_run) (simp_all add: opened_def placeholder_def)
  then show ?thesis
    unfolding ex chat_run_append exchange_opens [OF assms]
    by (simp add: placeholder_def reply_def)
qed

lemma exchange_ends:
  assumes "trim (chatInput s) \<noteq> []" "\<not> isAiTyping s"
  shows "chat_run s (exchange (chatSessionRef s) t_send t_open chunks @ [StreamEnds]) =
     Some ((opened t_send t_open s)
             \<lparr> chatMessages := chatMessages s @ [userMsg_of t_send s, reply t_open chunks (Some False)],
               isAiTyping := False, pending := NoCall \<rparr>)"
  unfolding chat_run_append exchange_run [OF assms]
  by (simp add: end_streaming_def sendMessage_finally_def reply_def butlast_append)

lemma exchange_throws:
  assumes "trim (chatInput s) \<noteq> []" "\<not> isAiTyping s"
  shows "chat_run s (exchange (chatSessionRef s) t_send t_open chunks @ [StreamThrows t_err]) =
     Some ((opened t_send t_open s)
             \<lparr> chatMessages := chatMessages s @ [userMsg_of t_send s, reply t_open chunks (Some True),
                  \<lparr> role = Model, msg_text = fallback_text, timestamp = t_err, isStreaming = None \<rparr>],
               isAiTyping := False, pending := NoCall \<rparr>)"
  unfolding chat_run_append exchange_run [OF assms]
  by (simp add: sendMessage_catch_def sendMessage_finally_def)

text \<open>
  Claim C7. From any state in which the input is not blank and no exchange is in
  flight, an exchange whose stream delivers a finite sequence of chunks in order runs
  without error; after the chunks the assistant message's text is the concatenation of
  their texts in arrival order (so each further chunk extends it), and once the stream
  ends the message is final, with the same text and \<open>isStreaming = false\<close>, and the
  busy flag is cleared. With no chunk at all the final text is empty.
\<close>

theorem chunks_concatenate:
  "trim (chatInput s) \<noteq> [] \<and> \<not> isAiTyping s \<Longrightarrow>
     map_option chatMessages (chat_run s (exchange (chatSessionRef s) t_send t_open chunks)) =
       Some (chatMessages s @
             [userMsg_of t_send s,
              \<lparr> role = Model, msg_text = concat (map chunk_text chunks), timestamp = t_open,
                isStreaming = Some True \<rparr>]) \<and>
     map_option chatMessages
         (chat_run s (exchange (chatSessionRef s) t_send t_open chunks @ [StreamEnds])) =
       Some (chatMessages s @
             [userMsg_of t_send s,
              \<lparr> role = Model, msg_text = concat (map chunk_text chunks), timestamp = t_open,
                isStreaming = Some False \<rparr>]) \<and>
     map_option isAiTyping
         (chat_run s (exchange (chatSessionRef s) t_send t_open chunks @ [StreamEnds])) =
       Some False"
  by (simp add: exchange_run exchange_ends reply_def)

theorem chunks_concatenate_witness:
  "trim (chatInput (initial_chat \<lparr> chatInput := ''hi'' \<rparr>)) \<noteq> [] \<and>
   \<not> isAiTyping (initial_chat \<lparr> chatInput := ''hi'' \<rparr>) \<and>
   map_option chatMessages (chat_run (initial_chat \<lparr> chatInput := ''hi'' \<rparr>)
       [Send 1, InitReturns, StreamOpens 2, Chunk (Some ''Hel''), Chunk (Some ''lo''), StreamEnds]) =
     Some [\<lparr> role = User, msg_text = ''hi'', timestamp = 1, isStreaming = None \<rparr>,
           \<lparr> role = Model, msg_text = ''Hello'', timestamp = 2, isStreaming = Some False \<rparr>] \<and>
   map_option chatMessages (chat_run (initial_chat \<lparr> chatInput := ''hi'' \<rparr>)
       [Send 1, InitReturns, StreamOpens 2, StreamEnds]) =
     Some [\<lparr> role = User, msg_text = ''hi'', timestamp = 1, isStreaming = None \<rparr>,
           \<lparr> role = Model, msg_text = [], timestamp = 2, isStreaming = Some False \<rparr>]"
proof -
  have g: "trim (chatInput (initial_chat \<lparr> chatInput := ''hi'' \<rparr>)) \<noteq> [] \<and>
           \<not> isAiTyping (initial_chat \<lparr> chatInput := ''hi'' \<rparr>)"
    by (simp add: trim_def white_space_def initial_chat_def)
  from chunks_concatenate [OF g, of 1 2 "[Some ''Hel'', Some ''lo'']"]
       chunks_concatenate [OF g, of 1 2 "[]"] g
  show ?thesis
    by (simp add: exchange_def initial_chat_def userMsg_of_def chunk_text_def
             del: chat_run.simps)
qed

lemma filter_streaming_not_last:
  "msgs = [] \<or> \<not> streaming (last msgs) \<Longrightarrow> filter streaming (butlast msgs) = [] \<Longrightarrow>
   filter streaming msgs = []"
  by (cases msgs rule: rev_cases) auto

lemma butlast_set_last_text: "set_last_text fullText prev = Some updated \<Longrightarrow> butlast updated = butlast prev"
  by (auto simp: set_last_text_def split: if_splits)

lemma butlast_end_streaming: "end_streaming prev = Some updated \<Longrightarrow> butlast updated = butlast prev"
  by (auto simp: end_streaming_def split: if_splits)

lemma quiet_inv_step:
  assumes "quiet_inv s" "\<not> is_StreamThrows ev" "chat_step s ev = Some s'"
  shows "quiet_inv s'"
proof -
  from assms(1) have inv: "chat_inv s" and q: "filter streaming (butlast (chatMessages s)) = []"
    by (simp_all add: quiet_inv_def)
  from chat_inv_step [OF inv, of ev] assms(3) have inv': "chat_inv s'" by auto
  have nl: "filter streaming (chatMessages s) = []" if "\<forall>ft. pending s \<noteq> Streaming ft"
  proof (rule filter_streaming_not_last)
    from inv that show "chatMessages s = [] \<or> \<not> streaming (last (chatMessages s))"
      by (cases "pending s") (simp_all add: chat_inv_def)
    from q show "filter streaming (butlast (chatMessages s)) = []" .
  qed
  have "filter streaming (butlast (chatMessages s')) = []"
  proof (cases ev)
    case (Input v)
    with assms(3) q show ?thesis by auto
  next
    case (Send now)
    show ?thesis
    proof (cases "trim (chatInput s) = [] \<or> isAiTyping s")
      case True
      with Send assms(3) q show ?thesis by (auto simp: sendMessage_call_def)
    next
      case False
      with inv have "pending s = NoCall" by (simp add: chat_inv_def)
      with nl have "filter streaming (chatMessages s) = []" by simp
      with False Send assms(3) show ?thesis by (auto simp: sendMessage_call_def Let_def)
    qed
  next
    case InitReturns
    with assms(3) q show ?thesis by (auto split: call.splits)
  next
    case (InitThrows now)
    with assms(3) q nl show ?thesis
      by (auto simp: sendMessage_catch_def sendMessage_finally_def split: call.splits)
  next
    case (StreamOpens now)
    with assms(3) q nl show ?thesis by (auto split: call.splits)
  next
    case (StreamRejects now)
    with assms(3) q nl show ?thesis
      by (auto simp: sendMessage_catch_def sendMessage_finally_def split: call.splits)
  next
    case (Chunk c)
    with assms(3) have "butlast (chatMessages s') = butlast (chatMessages s)"
      by (cases "pending s") (auto simp: Let_def dest: butlast_set_last_text split: option.splits)
    with q show ?thesis by simp
  next
    case StreamEnds
    with assms(3) have "butlast (chatMessages s') = butlast (chatMessages s)"
      by (cases "pending s")
         (auto simp: sendMessage_finally_def dest: butlast_end_streaming split: option.splits)
    with q show ?thesis by simp
  next
    case (StreamThrows now)
    with assms(2) show ?thesis by simp
  qed
  with inv' show ?thesis by (simp add: quiet_inv_def)
qed

lemma quiet_inv_run:
  "quiet_inv s \<Longrightarrow> list_all (\<lambda>ev. \<not> is_StreamThrows ev) evs \<Longrightarrow> chat_run s evs = Some s' \<Longrightarrow>
   quiet_inv s'"
proof (induction evs arbitrary: s)
  case Nil
  then show ?case by simp
next
  case (Cons ev evs)
  from Cons.prems(3) obtain s1 where s1: "chat_step s ev = Some s1" "chat_run s1 evs = Some s'"
    by (auto split: option.splits)
  from quiet_inv_step [OF Cons.prems(1) _ s1(1)] Cons.prems(2) have "quiet_inv s1" by simp
  from Cons.IH [OF this _ s1(2)] Cons.prems(2) show ?case by simp
qed

lemma quiet_inv_one_streaming_last: "quiet_inv s \<Longrightarrow> one_streaming_last (chatMessages s)"
proof -
  assume q: "quiet_inv s"
  show ?thesis
  proof (cases "chatMessages s" rule: rev_cases)
    case Nil
    then show ?thesis by (simp add: one_streaming_last_def)
  next
    case (snoc before m)
    with q have "filter streaming before = []" by (simp add: quiet_inv_def)
    with snoc show ?thesis by (simp add: one_streaming_last_def)
  qed
qed

lemma one_streaming_last_without_stream_error:
  "list_all (\<lambda>ev. \<not> is_StreamThrows ev) evs \<Longrightarrow> chat_run initial_chat evs = Some s \<Longrightarrow>
   one_streaming_last (chatMessages s)"
proof -
  assume a: "list_all (\<lambda>ev. \<not> is_StreamThrows ev) evs" "chat_run initial_chat evs = Some s"
  have "quiet_inv initial_chat"
    by (simp add: quiet_inv_def chat_inv_initial) (simp add: initial_chat_def)
  from quiet_inv_run [OF this a] show ?thesis by (rule quiet_inv_one_streaming_last)
qed

text \<open>
  Claim C2, as the code has it. When the stream throws after any number of chunks, a new
  model message with the fixed fallback text is appended after the messages already
  there, which keep their roles and texts; the busy flag is cleared, and a further
  \<open>sendMessage\<close> with a non-blank input is accepted and appends its user message.
\<close>

theorem stream_error_appends_fallback:
  "trim (chatInput s) \<noteq> [] \<and> \<not> isAiTyping s \<and> trim v \<noteq> [] \<Longrightarrow>
     map_option (\<lambda>s'. last (chatMessages s'))
         (chat_run s (exchange (chatSessionRef s) t_send t_open chunks @ [StreamThrows t_err])) =
       Some \<lparr> role = Model, msg_text = fallback_text, timestamp = t_err, isStreaming = None \<rparr> \<and>
     map_option (\<lambda>s'. map msg_text (chatMessages s'))
         (chat_run s (exchange (chatSessionRef s) t_send t_open chunks @ [StreamThrows t_err])) =
       Some (map msg_text (chatMessages s) @
             [chatInput s, concat (map chunk_text chunks), fallback_text]) \<and>
     map_option (\<lambda>s'. map role (chatMessages s'))
         (chat_run s (exchange (chatSessionRef s) t_send t_open chunks @ [StreamThrows t_err])) =
       Some (map role (chatMessages s) @ [User, Model, Model]) \<and>
     map_option isAiTyping
         (chat_run s (exchange (chatSessionRef s) t_send t_open chunks @ [StreamThrows t_err])) =
       Some False \<and>
     map_option (\<lambda>s'. drop (length (chatMessages s) + 3) (chatMessages s'))
         (chat_run s (exchange (chatSessionRef s) t_send t_open chunks @
                      [StreamThrows t_err, Input v, Send t_retry])) =
       Some [\<lparr> role = User, msg_text = v, timestamp = t_retry, isStreaming = None \<rparr>]"
proof -
  assume a: "trim (chatInput s) \<noteq> [] \<and> \<not> isAiTyping s \<and> trim v \<noteq> []"
  then have g: "trim (chatInput s) \<noteq> []" "\<not> isAiTyping s" and v: "trim v \<noteq> []" by simp_all
  have split: "exchange (chatSessionRef s) t_send t_open chunks @
                 [StreamThrows t_err, Input v, Send t_retry] =
               (exchange (chatSessionRef s) t_send t_open chunks @ [StreamThrows t_err]) @
                 [Input v, Send t_retry]"
    by simp
  show ?thesis
    unfolding split
    unfolding chat_run_append [of s "exchange (chatSessionRef s) t_send t_open chunks @ [StreamThrows t_err]"]
      exchange_throws [OF g]
    using v
    by (simp add: userMsg_of_def reply_def sendMessage_call_def Let_def opened_def)
qed

theorem stream_error_appends_fallback_witness:
  "trim (chatInput (initial_chat \<lparr> chatInput := ''hi'' \<rparr>)) \<noteq> [] \<and>
   \<not> isAiTyping (initial_chat \<lparr> chatInput := ''hi'' \<rparr>) \<and> trim ''again'' \<noteq> [] \<and>
   map_option (\<lambda>s'. map msg_text (chatMessages s'))
     (chat_run (initial_chat \<lparr> chatInput := ''hi'' \<rparr>)
        [Send 1, InitReturns, StreamOpens 2, Chunk (Some ''Hel''), StreamThrows 3]) =
     Some [''hi'', ''Hel'', ''Neural link failed. Attempting reconnection...''] \<and>
   map_option isAiTyping
     (chat_run (initial_chat \<lparr> chatInput := ''hi'' \<rparr>)
        [Send 1, InitReturns, StreamOpens 2, Chunk (Some ''Hel''), StreamThrows 3]) = Some False \<and>
   map_option (\<lambda>s'. drop 3 (chatMessages s'))
     (chat_run (initial_chat \<lparr> chatInput := ''hi'' \<rparr>)
        [Send 1, InitReturns, StreamOpens 2, Chunk (Some ''Hel''), StreamThrows 3,
         Input ''again'', Send 4]) =
     Some [\<lparr> role = User, msg_text = ''again'', timestamp = 4, isStreaming = None \<rparr>]"
proof -
  have g: "trim (chatInput (initial_chat \<lparr> chatInput := ''hi'' \<rparr>)) \<noteq> [] \<and>
           \<not> isAiTyping (initial_chat \<lparr> chatInput := ''hi'' \<rparr>) \<and> trim ''again'' \<noteq> []"
    by (simp add: trim_def white_space_def initial_chat_def)
  from stream_error_appends_fallback [OF g, of 1 2 "[Some ''Hel'']" 3 4] g
  show ?thesis
    by (simp add: exchange_def initial_chat_def chunk_text_def fallback_text_def
             del: chat_run.simps)
qed

text \<open>
  The claim as stated fails: after \<open>hi\<close> is sent, one chunk \<open>Hel\<close> arrives and the stream
  throws, the message that was streaming still has the text \<open>Hel\<close> and
  \<open>isStreaming = true\<close>.
\<close>

theorem stream_error_counterexample:
  "(case chat_run initial_chat
           [Input ''hi'', Send 1, InitReturns, StreamOpens 2, Chunk (Some ''Hel''), StreamThrows 3] of
      None \<Rightarrow> False
    | Some s' \<Rightarrow>
        chatMessages s' ! 1 =
          \<lparr> role = Model, msg_text = ''Hel'', timestamp = 2, isStreaming = Some True \<rparr> \<and>
        msg_text (chatMessages s' ! 1) \<noteq> fallback_text \<and>
        isStreaming (chatMessages s' ! 1) \<noteq> Some False)"
  by (simp add: initial_chat_def sendMessage_call_def trim_def white_space_def Let_def
        placeholder_def set_last_text_def chunk_text_def sendMessage_catch_def
        sendMessage_finally_def fallback_text_def)

text \<open>
  Claim C3 at the failing run. After a stream has thrown, the log holds a message with
  \<open>isStreaming = true\<close> that is not the last one, so the invariant is false; after one
  more call whose stream opens, two messages have \<open>isStreaming = true\<close>.
\<close>

theorem stream_error_leaves_streaming_message:
  "map_option (\<lambda>s. one_streaming_last (chatMessages s))
     (chat_run initial_chat
        [Input ''hi'', Send 1, InitReturns, StreamOpens 2, Chunk (Some ''Hel''), StreamThrows 3])
     = Some False \<and>
   map_option (\<lambda>s. map isStreaming (chatMessages s))
     (chat_run initial_chat
        [Input ''hi'', Send 1, InitReturns, StreamOpens 2, Chunk (Some ''Hel''), StreamThrows 3,
         Input ''again'', Send 4, StreamOpens 5])
     = Some [None, Some True, None, None, Some True]"
  by (simp add: initial_chat_def sendMessage_call_def trim_def white_space_def Let_def
        placeholder_def set_last_text_def chunk_text_def sendMessage_catch_def
        sendMessage_finally_def one_streaming_last_def streaming_def)

lemma fetchData_ignores_loading:
  "fetchData cfg t gRes cRes hRes (st \<lparr> loading := b \<rparr>) = fetchData cfg t gRes cRes hRes st"
  by (simp add: fetchData_def fetchData_begin_def)

lemma last_streaming_busy:
  assumes "chat_run initial_chat evs = Some s" "chatMessages s \<noteq> []"
    "streaming (last (chatMessages s))"
  shows "isAiTyping s"
proof -
  from assms(1) have "chat_inv s" by (rule chat_inv_reachable)
  with assms(2,3) show ?thesis by (cases "pending s") (auto simp: chat_inv_def)
qed

text \<open>
  Claim C4, as the code has it. A call of \<open>sendMessage\<close> made while an exchange is in
  flight returns at once and leaves the whole state as it is; in every state reached from
  the initial one in which the last message is streaming, an exchange is in flight, so
  the call changes nothing. \<open>fetchData\<close> has no such guard: it runs the same whether
  or not a refresh is outstanding.
\<close>

theorem busy_send_is_rejected:
  "(isAiTyping s \<longrightarrow> sendMessage_call now s = s) \<and>
   (chat_run initial_chat evs = Some s' \<and> chatMessages s' \<noteq> [] \<and>
    streaming (last (chatMessages s')) \<longrightarrow> chat_step s' (Send now) = Some s') \<and>
   fetchData cfg t gRes cRes hRes (st \<lparr> loading := b \<rparr>) = fetchData cfg t gRes cRes hRes st"
  using last_streaming_busy [of evs s']
  by (auto simp: sendMessage_call_def fetchData_ignores_loading)

theorem busy_send_is_rejected_witness:
  "chat_run initial_chat [Input ''hi'', Send 1, InitReturns, StreamOpens 2, Input ''more''] =
     Some \<lparr> chatMessages =
              [\<lparr> role = User, msg_text = ''hi'', timestamp = 1, isStreaming = None \<rparr>,
               \<lparr> role = Model, msg_text = [], timestamp = 2, isStreaming = Some True \<rparr>],
            chatInput = ''more'', isAiTyping = True, chatSessionRef = True,
            pending = Streaming [] \<rparr> \<and>
   chat_step \<lparr> chatMessages =
              [\<lparr> role = User, msg_text = ''hi'', timestamp = 1, isStreaming = None \<rparr>,
               \<lparr> role = Model, msg_text = [], timestamp = 2, isStreaming = Some True \<rparr>],
            chatInput = ''more'', isAiTyping = True, chatSessionRef = True,
            pending = Streaming [] \<rparr> (Send 3) =
     Some \<lparr> chatMessages =
              [\<lparr> role = User, msg_text = ''hi'', timestamp = 1, isStreaming = None \<rparr>,
               \<lparr> role = Model, msg_text = [], timestamp = 2, isStreaming = Some True \<rparr>],
            chatInput = ''more'', isAiTyping = True, chatSessionRef = True,
            pending = Streaming [] \<rparr>"
proof -
  let ?s = "\<lparr> chatMessages =
              [\<lparr> role = User, msg_text = ''hi'', timestamp = 1, isStreaming = None \<rparr>,
               \<lparr> role = Model, msg_text = [], timestamp = 2, isStreaming = Some True \<rparr>],
            chatInput = ''more'', isAiTyping = True, chatSessionRef = True,
            pending = Streaming [] \<rparr>"
  have run: "chat_run initial_chat [Input ''hi'', Send 1, InitReturns, StreamOpens 2, Input ''more'']
             = Some ?s"
    by (simp add: initial_chat_def sendMessage_call_def trim_def white_space_def Let_def
          placeholder_def)
  have last: "chatMessages ?s \<noteq> [] \<and> streaming (last (chatMessages ?s))"
    by (simp add: streaming_def)
  from busy_send_is_rejected
         [where s = ?s and now = 3 and s' = ?s
            and evs = "[Input ''hi'', Send 1, InitReturns, StreamOpens 2, Input ''more'']"
            and cfg = initial_config and t = 0 and b = True
            and st = "initial_app :: (nat, nat, nat) app_state"
            and gRes = "Inl NotAnError" and cRes = "Inl NotAnError" and hRes = "Inl NotAnError"]
       run last
  show ?thesis by (simp del: chat_run.simps chat_step.simps)
qed

text \<open>
  The claim as stated fails for the refresh: a call made while another refresh is
  outstanding is carried out and replaces the snapshot.
\<close>

theorem refresh_while_loading_counterexample:
  "loading (fetchData_begin (initial_app :: (nat, nat, nat) app_state)) \<and>
   snapshot (fetchData_begin (initial_app :: (nat, nat, nat) app_state)) = (None, [], None) \<and>
   snapshot (fetchData initial_config 7
      (Inr \<lparr> ok = True, json = Inr 1 \<rparr>)
      (Inr \<lparr> ok = True, json = Inr [2] \<rparr>)
      (Inr \<lparr> ok = True, json = Inr 3 \<rparr>)
      (fetchData_begin (initial_app :: (nat, nat, nat) app_state))) = (Some 1, [2], Some 3)"
  by (simp add: fetchData_def fetchData_begin_def fetchData_settle_def Let_def snapshot_def
        addNotification_def initial_app_def initial_config_def)

section \<open>Properties of the table view\<close>

lemma includes_str_contains: "includes_str hay needle = contains hay needle"
proof (induction hay)
  case Nil
  show ?case by (auto simp: contains_def)
next
  case (Cons h hs)
  show ?case
  proof
    assume "includes_str (h # hs) needle"
    then consider "prefix needle (h # hs)" | "includes_str hs needle" by auto
    then show "contains (h # hs) needle"
    proof cases
      case 1
      then obtain after where "h # hs = needle @ after" by (auto simp: prefix_def)
      then have "h # hs = [] @ needle @ after" by simp
      then show ?thesis unfolding contains_def by blast
    next
      case 2
      with Cons obtain before after where "hs = before @ needle @ after"
        by (auto simp: contains_def)
      then have "h # hs = (h # before) @ needle @ after" by simp
      then show ?thesis unfolding contains_def by blast
    qed
  next
    assume "contains (h # hs) needle"
    then obtain before after where ba: "h # hs = before @ needle @ after"
      by (auto simp: contains_def)
    show "includes_str (h # hs) needle"
    proof (cases before)
      case Nil
      with ba have "prefix needle (h # hs)" by (simp add: prefix_def)
      then show ?thesis by simp
    next
      case (Cons b bs)
      with ba have "hs = bs @ needle @ after" by simp
      then have "contains hs needle" unfolding contains_def by blast
      with Cons.IH show ?thesis by simp
    qed
  qed
qed

lemma insert_by_insort:
  "insert_by (compare_countries key order) x ys = insort_key (sort_value key order) x ys"
  by (induction ys) (auto simp: compare_countries_def sort_value_def Let_def)

lemma sort_by_sort_key:
  "sort_by (compare_countries key order) xs = sort_key (sort_value key order) xs"
  by (induction xs) (simp_all add: sort_by_def insert_by_insort)

lemma table_refines:
  "filteredAndSortedCountries cs t key order = table_spec cs t key order"
  by (simp add: filteredAndSortedCountries_def table_spec_def sort_by_sort_key
        name_matches_def [abs_def] includes_str_contains sort_value_def [abs_def])

lemma sorted_table:
  "sorted (map (sort_value key order) (filteredAndSortedCountries cs t key order))"
proof -
  have "sorted (map (sort_value key order)
          (sort_key (sort_value key order) (filter (name_matches t) cs)))"
    by (rule sorted_sort_key)
  then have "sorted (take 100 (map (sort_value key order)
          (sort_key (sort_value key order) (filter (name_matches t) cs))))"
    by (rule sorted_wrt_take)
  then show ?thesis
    by (simp add: filteredAndSortedCountries_def sort_by_sort_key take_map)
qed

lemma mset_sort_by:
  "mset (sort_by (compare_countries key order) xs) = mset xs"
  by (simp add: sort_by_sort_key)

lemma toggleSort_filter:
  "filter (name_matches (searchTerm (toggleSort key v))) cs = filter (name_matches (searchTerm v)) cs"
  by (simp add: toggleSort_def)

text \<open>
  Claim C8. The table is a function of the countries, the filter text, the sort key and
  the sort order, equal to the specification's reading: the countries whose lower-cased
  name contains the lower-cased filter text, in stable order of the chosen field in the
  chosen direction, cut to the first hundred. The result has at most a hundred rows and
  is sorted; the filter keeps the countries' relative order; sorting permutes the filtered
  countries, and when there are at most a hundred of them, the table holds exactly
  these. A click on the active sort key flips the order, a click on another key selects
  it with descending order, and neither changes the filter text or the filtered
  countries.
\<close>

theorem table_filter_sort_cap:
  "filteredAndSortedCountries cs t key order = table_spec cs t key order \<and>
   length (filteredAndSortedCountries cs t key order) \<le> 100 \<and>
   sorted (map (sort_value key order) (filteredAndSortedCountries cs t key order)) \<and>
   subseq (filter (name_matches t) cs) cs \<and>
   mset (sort_by (compare_countries key order) (filter (name_matches t) cs)) =
     mset (filter (name_matches t) cs) \<and>
   (length (filter (name_matches t) cs) \<le> 100 \<longrightarrow>
      mset (filteredAndSortedCountries cs t key order) = mset (filter (name_matches t) cs)) \<and>
   (sortKey v = key \<longrightarrow>
      sortKey (toggleSort key v) = key \<and> sortOrder (toggleSort key v) \<noteq> sortOrder v) \<and>
   (sortKey v \<noteq> key \<longrightarrow>
      sortKey (toggleSort key v) = key \<and> sortOrder (toggleSort key v) = Desc) \<and>
   searchTerm (toggleSort key v) = searchTerm v \<and>
   filter (name_matches (searchTerm (toggleSort key v))) cs =
     filter (name_matches (searchTerm v)) cs"
proof -
  have cap: "length (filteredAndSortedCountries cs t key order) \<le> 100"
    by (simp add: filteredAndSortedCountries_def)
  have all: "mset (filteredAndSortedCountries cs t key order) = mset (filter (name_matches t) cs)"
    if "length (filter (name_matches t) cs) \<le> 100"
    using that by (simp add: filteredAndSortedCountries_def sort_by_sort_key)
  have toggle: "(sortKey v = key \<longrightarrow>
      sortKey (toggleSort key v) = key \<and> sortOrder (toggleSort key v) \<noteq> sortOrder v) \<and>
   (sortKey v \<noteq> key \<longrightarrow>
      sortKey (toggleSort key v) = key \<and> sortOrder (toggleSort key v) = Desc) \<and>
   searchTerm (toggleSort key v) = searchTerm v"
    by (cases "sortOrder v") (simp_all add: toggleSort_def)
  from table_refines [of cs t key order] cap sorted_table [of key order cs t]
    subseq_filter_left [of "name_matches t" cs] mset_sort_by [of key order] all toggle
    toggleSort_filter [of key v cs]
  show ?thesis by simp
qed

theorem table_filter_sort_cap_witness:
  "length (filter (name_matches ''fra'') [france, germany, francistan]) \<le> 100 \<and>
   sortKey initial_view = Cases \<and>
   table_spec [france, germany, francistan] ''fra'' Cases Desc = [francistan, france] \<and>
   mset (filteredAndSortedCountries [france, germany, francistan] ''fra'' Cases Desc) =
     mset (filter (name_matches ''fra'') [france, germany, francistan]) \<and>
   sortOrder (toggleSort Cases initial_view) \<noteq> sortOrder initial_view"
proof -
  have f: "length (filter (name_matches ''fra'') [france, germany, francistan]) \<le> 100"
    by code_simp
  have r: "filteredAndSortedCountries [france, germany, francistan] ''fra'' Cases Desc =
             [francistan, france]"
    by code_simp
  have k: "sortKey initial_view = Cases"
    by (simp add: initial_view_def)
  note T = table_filter_sort_cap [of "[france, germany, francistan]" "''fra''" Cases Desc initial_view]
  from T have a: "filteredAndSortedCountries [france, germany, francistan] ''fra'' Cases Desc =
      table_spec [france, germany, francistan] ''fra'' Cases Desc"
    by (rule conjunct1)
  from T f have b: "mset (filteredAndSortedCountries [france, germany, francistan] ''fra'' Cases Desc) =
     mset (filter (name_matches ''fra'') [france, germany, francistan])"
    by blast
  from T k have c: "sortOrder (toggleSort Cases initial_view) \<noteq> sortOrder initial_view"
    by blast
  from a r have "table_spec [france, germany, francistan] ''fra'' Cases Desc = [francistan, france]"
    by simp
  with f k b c show ?thesis by blast
qed

section \<open>Properties of the scheduler\<close>

lemma sched_inv_initial: "sched_inv initial_scheduler"
  by (simp add: sched_inv_def initial_scheduler_def)

lemma intervals_effect_cleanup: "sched_inv s \<Longrightarrow> intervals (effect_cleanup s) = []"
  by (auto simp: sched_inv_def effect_cleanup_def split: option.splits)

lemma intervals_start:
  "sched_inv s \<Longrightarrow> intervals (start rate s) = [(next_handle s, rate * 1000, rate)]"
  using intervals_effect_cleanup [of s]
  by (simp add: start_def effect_body_def Let_def) (simp add: effect_cleanup_def split: option.splits)

lemma sched_inv_start: "sched_inv s \<Longrightarrow> sched_inv (start rate s)"
  using intervals_start [of s rate]
  by (simp add: sched_inv_def) (simp add: start_def effect_body_def Let_def)

lemma sched_inv_stop: "sched_inv s \<Longrightarrow> sched_inv (stop s)"
  using intervals_effect_cleanup [of s]
  by (simp add: stop_def sched_inv_def) (simp add: effect_cleanup_def split: option.splits)

lemma sched_inv_fires: "sched_inv s \<Longrightarrow> sched_inv (interval_fires handle s)"
  by (auto simp: sched_inv_def interval_fires_def split: option.splits)

lemma sched_inv_step: "sched_inv s \<Longrightarrow> sched_inv (scheduler_step s ev)"
  by (cases ev) (simp_all add: sched_inv_start sched_inv_stop sched_inv_fires)

lemma scheduler_run_snoc: "scheduler_run s (evs @ [ev]) = scheduler_step (scheduler_run s evs) ev"
  by (simp add: scheduler_run_def)

lemma sched_inv_run: "sched_inv s \<Longrightarrow> sched_inv (scheduler_run s evs)"
  by (induction evs rule: rev_induct) (simp_all add: scheduler_run_def sched_inv_step)

lemma sched_inv_length: "sched_inv s \<Longrightarrow> length (intervals s) \<le> 1"
proof -
  assume "sched_inv s"
  then have "length (map fst (intervals s)) \<le> 1"
    by (cases "cleanup s") (simp_all add: sched_inv_def)
  then show ?thesis by simp
qed

lemma fires_one_timer:
  assumes "intervals s = [(h, d, r)]"
  shows "intervals (interval_fires handle s) = [(h, d, r)] \<and>
         (fetchData_calls (interval_fires handle s) = fetchData_calls s \<or>
          fetchData_calls (interval_fires handle s) = fetchData_calls s @ [Timer d])"
  using assms by (simp add: interval_fires_def)

lemma fires_run:
  assumes "intervals s = [(h, d, r)]" "list_all is_Fires fs"
  shows "intervals (scheduler_run s fs) = [(h, d, r)] \<and>
         (\<exists>k. fetchData_calls (scheduler_run s fs) = fetchData_calls s @ replicate k (Timer d))"
  using assms(2)
proof (induction fs rule: rev_induct)
  case Nil
  with assms(1) show ?case by (simp add: scheduler_run_def)
next
  case (snoc f fs)
  then have IH: "intervals (scheduler_run s fs) = [(h, d, r)]"
    and "\<exists>k. fetchData_calls (scheduler_run s fs) = fetchData_calls s @ replicate k (Timer d)"
    by simp_all
  then obtain k where k: "fetchData_calls (scheduler_run s fs) = fetchData_calls s @ replicate k (Timer d)"
    by blast
  from snoc.prems obtain handle where f: "f = Fires handle" by (cases f) simp_all
  from fires_one_timer [OF IH, of handle] k f
  have "intervals (scheduler_run s (fs @ [f])) = [(h, d, r)]"
    and "fetchData_calls (scheduler_run s (fs @ [f])) = fetchData_calls s @ replicate k (Timer d) \<or>
         fetchData_calls (scheduler_run s (fs @ [f])) = fetchData_calls s @ replicate (Suc k) (Timer d)"
    by (auto simp: scheduler_run_snoc replicate_append_same)
  then show ?case by blast
qed

text \<open>
  Claim C9. Over any sequence of starts, stops and timer firings there is never more
  than one interval timer armed. Right after a start with some rate, whatever came
  before, the table holds exactly one timer, a fresh one with the new period; and as
  long as only timers fire afterwards, every call of \<open>fetchData\<close> made by a timer is made
  at that period: a firing of an earlier, cleared timer never happens.
\<close>

theorem one_timer_at_current_period:
  "length (intervals (scheduler_run initial_scheduler evs)) \<le> 1 \<and>
   intervals (scheduler_run initial_scheduler (evs @ [Start rate])) =
     [(next_handle (scheduler_run initial_scheduler evs), rate * 1000, rate)] \<and>
   (list_all is_Fires fs \<longrightarrow>
      set (drop (length (fetchData_calls (scheduler_run initial_scheduler (evs @ [Start rate]))))
            (fetchData_calls (scheduler_run initial_scheduler (evs @ Start rate # fs))))
        \<subseteq> {Timer (rate * 1000)})"
proof -
  let ?s0 = "scheduler_run initial_scheduler evs"
  let ?s1 = "scheduler_run initial_scheduler (evs @ [Start rate])"
  have inv: "sched_inv ?s0"
    using sched_inv_initial by (rule sched_inv_run)
  have one: "length (intervals ?s0) \<le> 1"
    using inv by (rule sched_inv_length)
  have s1: "?s1 = start rate ?s0"
    by (simp add: scheduler_run_snoc)
  have armed: "intervals ?s1 = [(next_handle ?s0, rate * 1000, rate)]"
    unfolding s1 using inv by (rule intervals_start)
  have run: "scheduler_run initial_scheduler (evs @ Start rate # fs) = scheduler_run ?s1 fs"
    by (simp add: scheduler_run_def)
  have fired: "set (drop (length (fetchData_calls ?s1))
                  (fetchData_calls (scheduler_run initial_scheduler (evs @ Start rate # fs))))
        \<subseteq> {Timer (rate * 1000)}" if "list_all is_Fires fs"
  proof -
    from fires_run [OF armed that] obtain k where
      "fetchData_calls (scheduler_run ?s1 fs) = fetchData_calls ?s1 @ replicate k (Timer (rate * 1000))"
      by blast
    then show ?thesis unfolding run by auto
  qed
  from one armed fired show ?thesis by blast
qed

theorem one_timer_at_current_period_witness:
  "list_all is_Fires [Fires 0, Fires 1, Fires 0] \<and>
   intervals (scheduler_run initial_scheduler ([Start 10] @ [Start 5])) = [(1, 5000, 5)] \<and>
   set (drop (length (fetchData_calls (scheduler_run initial_scheduler ([Start 10] @ [Start 5]))))
         (fetchData_calls (scheduler_run initial_scheduler
            ([Start 10] @ Start 5 # [Fires 0, Fires 1, Fires 0]))))
     \<subseteq> {Timer 5000}"
proof -
  have f: "list_all is_Fires [Fires 0, Fires 1, Fires 0]" by simp
  have n: "next_handle (scheduler_run initial_scheduler [Start 10]) = 1"
    by (simp add: scheduler_run_def start_def effect_body_def effect_cleanup_def
          initial_scheduler_def Let_def)
  from one_timer_at_current_period [of "[Start 10]" 5 "[Fires 0, Fires 1, Fires 0]"] f n
  show ?thesis by simp
qed

end
